theory Spec2Isabelle
  imports Complex_Main "HOL-Library.Log_Nat"
begin

section \<open>Data of the tweet deleter\<close>

text \<open>
  A tweet object as the deleter sees it. The command line passes the objects of the
  timeline (\<open>id\<close>, \<open>text\<close>, \<open>created_at\<close>); the web server builds objects with an
  \<open>id\<close> only (\<open>tweetIds.map(id => ({ id }))\<close>), so the other fields may be undefined.
\<close>

record tweet =
  tweet_id :: string
  tweet_text :: "string option"
  created_at :: "string option"

text \<open>
  An entry of \<open>deletedTweets\<close>, the array that \<open>saveDeletionLog\<close> writes to
  \<open>deleted_tweets.json\<close>. \<open>deleted_at\<close> is the clock reading of \<open>new Date()\<close>,
  in milliseconds.
\<close>

record log_entry =
  entry_id :: string
  entry_text :: "string option"
  entry_created_at :: "string option"
  deleted_at :: int

text \<open>The fields of a \<open>TweetDeleter\<close> object that the deletion code reads and writes.\<close>

record deleter =
  tweetsPerBatch :: int
  batchDelayMinutes :: int
  maxDeletionsPerDay :: int
  deletedTweets :: "log_entry list"

text \<open>
  The constructor. Its arguments are the results of \<open>parseInt\<close> on the two environment
  variables, \<open>None\<close> for \<open>NaN\<close>; \<open>x || d\<close> replaces \<open>NaN\<close> and \<open>0\<close> by the default.
\<close>

definition js_or_default :: "int option \<Rightarrow> int \<Rightarrow> int" where
  "js_or_default p d = (case p of None \<Rightarrow> d | Some n \<Rightarrow> if n = 0 then d else n)"

definition new_TweetDeleter :: "int option \<Rightarrow> int option \<Rightarrow> deleter" where
  "new_TweetDeleter env_batch env_delay =
     \<lparr> tweetsPerBatch = js_or_default env_batch 5,
       batchDelayMinutes = js_or_default env_delay 90,
       maxDeletionsPerDay = 15,
       deletedTweets = [] \<rparr>"

text \<open>
  An error thrown by the API client: \<open>error.code\<close>, \<open>error.message\<close> and
  \<open>error.rateLimit?.reset\<close> (seconds since the epoch, when the client attached one).
\<close>

record api_error =
  err_code :: int
  err_message :: string
  rate_reset :: "int option"

datatype api_outcome = Resolved | Raised api_error

text \<open>
  What the remote endpoint and the clock give to one deletion attempt: the outcome of
  \<open>client.v2.deleteTweet\<close>, and the value of \<open>new Date()\<close> (milliseconds) read while
  the attempt is handled.
\<close>

type_synonym reply = "api_outcome \<times> int"

record delete_result =
  success :: bool
  result_id :: string
  result_error :: "string option"

text \<open>
  \<open>deleteTweet\<close>: a 429 error is thrown again (\<open>Inl\<close>), every other error becomes a
  result with \<open>success: false\<close>.
\<close>

definition deleteTweet :: "string \<Rightarrow> api_outcome \<Rightarrow> api_error + delete_result" where
  "deleteTweet tweetId out =
     (case out of
        Resolved \<Rightarrow> Inr \<lparr> success = True, result_id = tweetId, result_error = None \<rparr>
      | Raised error \<Rightarrow>
          if err_code error = 429 then Inl error
          else Inr \<lparr> success = False, result_id = tweetId,
                     result_error = Some (err_message error) \<rparr>)"

section \<open>Numbers of JavaScript\<close>

text \<open>
  A Number is a binary64 double, and an arithmetic operation gives the exact result rounded
  to the nearest double, ties to the even significand. \<open>binary64\<close> is that rounding on
  the rationals: 53 bits of significand, the exponent not below that of the subnormal
  numbers. A result of magnitude \<open>2^1024\<close> and above is \<open>Infinity\<close> in JavaScript;
  here the rounded rational stands for it. The only operation of this development that can
  reach such a value is the product \<open>reset * 1000\<close>, whose result is only compared
  with the range of Date, where an infinite and a large finite value give the same answer.
\<close>

definition round_half_even :: "rat \<Rightarrow> int" where
  "round_half_even y =
     (let n = \<lfloor>y\<rfloor>; f = y - of_int n
      in if f < 1 / 2 then n else if 1 / 2 < f then n + 1 else if even n then n else n + 1)"

text \<open>The exponent of a positive number: the integer \<open>k\<close> with \<open>2^k \<le> z < 2^(k+1)\<close>.\<close>

definition exponent2 :: "rat \<Rightarrow> int" where
  "exponent2 z = (if 1 \<le> z then bitlen \<lfloor>z\<rfloor> - 1 else - bitlen (\<lceil>1 / z\<rceil> - 1))"

definition binary64 :: "rat \<Rightarrow> rat" where
  "binary64 z =
     (if z = 0 then 0
      else (let e = max (exponent2 \<bar>z\<bar> - 52) (- 1074)
            in of_int (round_half_even (z / 2 powi e)) * 2 powi e))"

text \<open>\<open>Math.round\<close>: the nearest integer, the larger one at a tie.\<close>

definition Math_round :: "rat \<Rightarrow> int" where
  "Math_round y = \<lfloor>y + 1 / 2\<rfloor>"

section \<open>\<open>sleep\<close>\<close>

text \<open>
  \<open>sleep(minutes)\<close>: \<open>for (let i = 0; i < minutes; i++)\<close> awaits a timer of one minute
  per turn. The result is the number of minutes waited. The argument is a whole number or
  \<open>NaN\<close> (\<open>None\<close>), for which the test \<open>i < minutes\<close> is false at once.
\<close>

function sleep_loop :: "int \<Rightarrow> int \<Rightarrow> nat \<Rightarrow> nat" where
  "sleep_loop minutes i waited =
     (if i < minutes then sleep_loop minutes (i + 1) (waited + 1) else waited)"
  by pat_completeness auto
termination
  by (relation "measure (\<lambda>(minutes, i, waited). nat (minutes - i))") auto

declare sleep_loop.simps [simp del]

definition sleep :: "int option \<Rightarrow> nat" where
  "sleep minutes = (case minutes of None \<Rightarrow> 0 | Some m \<Rightarrow> sleep_loop m 0 0)"

section \<open>Traces and runs\<close>

text \<open>
  What a run does, in order: the chunk it cuts, the calls of \<open>deleteTweet\<close>, the outcome
  it records for an item, the timers it awaits and the writing of the log. \<open>sleep\<close> is
  called at two places, after a 429 and between batches; the event keeps the place, the
  argument of the call and the minutes the call waited. \<open>Reinitialized\<close> marks a
  \<open>POST /api/initialize\<close> that the server handled while the run was awaiting.
\<close>

datatype event =
    Batch "string list"
  | Attempt string
  | Deleted string int
  | Failed string
  | ItemPause int
  | RateLimitSleep "int option" nat
  | BatchSleep int nat
  | LogSaved
  | Reinitialized

text \<open>The trace of events and the log file on disk (\<open>None\<close>: not written yet).\<close>

record world =
  trace :: "event list"
  log_file :: "log_entry list option"

text \<open>
  How far a run has come, with its state: it has returned; or it awaits the endpoint, the
  replies given to the model being used up; or the bound on the turns of its batch loop is
  used up; or, for a part of a run, an exception has left it.
\<close>

datatype 'a run = Returned 'a | Awaiting 'a | OutOfFuel 'a | Threw 'a

fun run_state :: "'a run \<Rightarrow> 'a" where
  "run_state (Returned s) = s"
| "run_state (Awaiting s) = s"
| "run_state (OutOfFuel s) = s"
| "run_state (Threw s) = s"

section \<open>Helpers of the JavaScript library\<close>

text \<open>
  \<open>Array.prototype.slice(start, end)\<close>: a negative index counts from the end, both
  indices are clamped to the array, and an end before the start gives the empty array.
\<close>

definition slice :: "'a list \<Rightarrow> int \<Rightarrow> int \<Rightarrow> 'a list" where
  "slice xs start fin =
     (let len = int (length xs);
          k = (if start < 0 then max (len + start) 0 else min start len);
          final = (if fin < 0 then max (len + fin) 0 else min fin len)
      in take (nat (final - k)) (drop (nat k) xs))"

text \<open>\<open>String.prototype.startsWith\<close>.\<close>

definition startsWith :: "string \<Rightarrow> string \<Rightarrow> bool" where
  "startsWith s p \<longleftrightarrow> take (length p) s = p"

text \<open>
  \<open>Math.ceil((resetTime - new Date()) / (1000 * 60))\<close> with
  \<open>resetTime = new Date(reset * 1000)\<close>: the minutes until the reset, rounded up. A
  Date beyond 8.64e15 milliseconds from the epoch is invalid, and the difference and all
  that follows is then \<open>NaN\<close> (\<open>None\<close>). \<open>now_ms\<close> is the time value of
  \<open>new Date()\<close>, a valid Date. The product, the difference and the quotient are
  operations on doubles.
\<close>

definition minutesUntilReset :: "int \<Rightarrow> int \<Rightarrow> int option" where
  "minutesUntilReset reset now_ms =
     (let resetTime = binary64 (of_int reset * 1000)
      in if 8640000000000000 < \<bar>resetTime\<bar> then None
         else Some \<lceil>binary64 (binary64 (resetTime - of_int now_ms) / (1000 * 60))\<rceil>)"

text \<open>
  The test \<open>if (error.rateLimit?.reset)\<close>: an absent reset and a reset of \<open>0\<close> are
  both falsy.
\<close>

fun truthy_reset :: "int option \<Rightarrow> int option" where
  "truthy_reset None = None"
| "truthy_reset (Some r) = (if r = 0 then None else Some r)"

section \<open>\<open>fetchUserTweets\<close>\<close>

text \<open>
  The outcome of \<open>client.v2.me()\<close> followed by \<open>client.v2.userTimeline\<close>: an error, or a
  page whose \<open>_realData?.data\<close> may be undefined. The remote side is a function of the
  \<open>max_results\<close> it is asked for.
\<close>

datatype timeline_outcome = TimelineError api_error | Timeline "tweet list option"

definition freetierMaxResults :: "int \<Rightarrow> int" where
  "freetierMaxResults maxResults = min maxResults 10"

definition is_original :: "string \<Rightarrow> bool" where
  "is_original txt \<longleftrightarrow> \<not> startsWith txt ''@'' \<and> \<not> startsWith txt ''RT @''"

text \<open>
  The filter callback reads \<open>tweet.text.startsWith\<close>; on a tweet without text this
  throws a TypeError (\<open>None\<close>), which the \<open>catch\<close> of \<open>fetchUserTweets\<close> turns into
  \<open>[]\<close>, as it does every error of the API.
\<close>

fun filter_original :: "tweet list \<Rightarrow> tweet list option" where
  "filter_original [] = Some []"
| "filter_original (t # ts) =
     (case tweet_text t of
        None \<Rightarrow> None
      | Some txt \<Rightarrow>
          (case filter_original ts of
             None \<Rightarrow> None
           | Some originalTweets \<Rightarrow>
               Some (if is_original txt then t # originalTweets else originalTweets)))"

definition fetchUserTweets :: "deleter \<Rightarrow> int \<Rightarrow> (int \<Rightarrow> timeline_outcome) \<Rightarrow> tweet list" where
  "fetchUserTweets this maxResults userTimeline =
     (case userTimeline (freetierMaxResults maxResults) of
        TimelineError error \<Rightarrow> []
      | Timeline data \<Rightarrow>
          (let allTweets = (case data of None \<Rightarrow> [] | Some ts \<Rightarrow> ts)
           in case filter_original allTweets of
                None \<Rightarrow> []
              | Some originalTweets \<Rightarrow> slice originalTweets 0 (maxDeletionsPerDay this)))"

section \<open>The command line: \<open>deleteTweetsInBatches\<close>\<close>

record cli_state = world +
  this :: deleter
  deletedCount :: nat
  failedCount :: nat

definition cli_event :: "event \<Rightarrow> cli_state \<Rightarrow> cli_state" where
  "cli_event e s = s\<lparr> trace := trace s @ [e] \<rparr>"

text \<open>
  The argument of \<open>sleep\<close> after a 429 on the command line: \<open>minutesUntilReset + 5\<close>
  (a sum of whole numbers far below \<open>2^53\<close>, or \<open>NaN\<close>), or 24 hours.
\<close>

definition cli_rate_limit_wait :: "api_error \<Rightarrow> int \<Rightarrow> int option" where
  "cli_rate_limit_wait error now_ms =
     (case truthy_reset (rate_reset error) of
        Some reset \<Rightarrow> map_option (\<lambda>m. m + 5) (minutesUntilReset reset now_ms)
      | None \<Rightarrow> Some (24 * 60))"

text \<open>
  The body of the loop over \<open>j\<close> for one call of \<open>deleteTweet\<close>. It returns the value
  of \<open>j\<close> that the loop's \<open>j++\<close> then increments: \<open>j - 1\<close> after a 429 (\<open>j--;
  continue\<close>), so that the same tweet comes again.
\<close>

definition cli_attempt :: "tweet \<Rightarrow> int \<Rightarrow> reply \<Rightarrow> cli_state \<Rightarrow> int \<times> cli_state" where
  "cli_attempt tw j r s =
     (let s0 = cli_event (Attempt (tweet_id tw)) s
      in case deleteTweet (tweet_id tw) (fst r) of
           Inr result \<Rightarrow>
             (j, cli_event (ItemPause 300000)
                  (if success result
                   then cli_event (Deleted (tweet_id tw) (snd r))
                          (s0\<lparr> deletedCount := deletedCount s0 + 1,
                               this := (this s0)\<lparr> deletedTweets := deletedTweets (this s0) @
                                  [\<lparr> entry_id = tweet_id tw, entry_text = tweet_text tw,
                                     entry_created_at = created_at tw,
                                     deleted_at = snd r \<rparr>] \<rparr> \<rparr>)
                   else cli_event (Failed (tweet_id tw))
                          (s0\<lparr> failedCount := failedCount s0 + 1 \<rparr>)))
         | Inl error \<Rightarrow>
             if err_code error = 429
             then (j - 1, cli_event (RateLimitSleep (cli_rate_limit_wait error (snd r))
                                       (sleep (cli_rate_limit_wait error (snd r)))) s0)
             else (j, cli_event (Failed (tweet_id tw))
                        (s0\<lparr> failedCount := failedCount s0 + 1 \<rparr>)))"

text \<open>
  \<open>for (let j = 0; j < batch.length; j++)\<close>. Every turn awaits one reply of the
  endpoint; when the replies given to the model are used up the run is waiting, and the
  result carries \<open>None\<close>.
\<close>

fun cli_items :: "tweet list \<Rightarrow> int \<Rightarrow> reply list \<Rightarrow> cli_state
    \<Rightarrow> cli_state \<times> reply list option" where
  "cli_items batch j [] s =
     (if j < int (length batch) then (s, None) else (s, Some []))"
| "cli_items batch j (r # rs) s =
     (if j < int (length batch)
      then (case cli_attempt (batch ! nat j) j r s of
              (j', s') \<Rightarrow> cli_items batch (j' + 1) rs s')
      else (s, Some (r # rs)))"

text \<open>
  \<open>for (let i = 0; i < tweets.length; i += this.tweetsPerBatch)\<close>. The first argument
  bounds the number of turns of this loop: with a batch size that is not positive the
  loop never ends.
\<close>

fun cli_batches :: "nat \<Rightarrow> tweet list \<Rightarrow> int \<Rightarrow> reply list \<Rightarrow> cli_state
    \<Rightarrow> cli_state run" where
  "cli_batches 0 tweets i rs s = OutOfFuel s"
| "cli_batches (Suc fuel) tweets i rs s =
     (if i < int (length tweets)
      then
        (let batch = slice tweets i (i + tweetsPerBatch (this s))
         in case cli_items batch 0 rs (cli_event (Batch (map tweet_id batch)) s) of
              (s', None) \<Rightarrow> Awaiting s'
            | (s', Some rs') \<Rightarrow>
                cli_batches fuel tweets (i + tweetsPerBatch (this s')) rs'
                  (if i + tweetsPerBatch (this s') < int (length tweets)
                   then cli_event (BatchSleep (batchDelayMinutes (this s'))
                                     (sleep (Some (batchDelayMinutes (this s'))))) s'
                   else s'))
      else Returned s)"

definition deleteTweetsInBatches :: "nat \<Rightarrow> tweet list \<Rightarrow> reply list \<Rightarrow> cli_state
    \<Rightarrow> cli_state run" where
  "deleteTweetsInBatches fuel tweets rs s =
     cli_batches fuel tweets 0 rs (s\<lparr> deletedCount := 0, failedCount := 0 \<rparr>)"

text \<open>
  \<open>saveDeletionLog\<close> on the command line: \<open>fs.writeFile\<close> succeeds (\<open>True\<close>) or
  rejects, and then \<open>None\<close> stands for the exception.
\<close>

definition cli_saveDeletionLog :: "bool \<Rightarrow> cli_state \<Rightarrow> cli_state option" where
  "cli_saveDeletionLog write_ok s =
     (if write_ok
      then Some (cli_event LogSaved (s\<lparr> log_file := Some (deletedTweets (this s)) \<rparr>))
      else None)"

text \<open>
  The end of \<open>main\<close>: the run, then the log. A rejected write escapes \<open>main\<close> and
  leaves the state as it was after the run.
\<close>

definition cli_main_delete :: "nat \<Rightarrow> tweet list \<Rightarrow> reply list \<Rightarrow> bool \<Rightarrow> cli_state
    \<Rightarrow> cli_state run" where
  "cli_main_delete fuel tweets rs write_ok s =
     (case deleteTweetsInBatches fuel tweets rs s of
        Awaiting s' \<Rightarrow> Awaiting s'
      | OutOfFuel s' \<Rightarrow> OutOfFuel s'
      | Threw s' \<Rightarrow> Threw s'
      | Returned s' \<Rightarrow>
          (case cli_saveDeletionLog write_ok s' of
             Some s'' \<Rightarrow> Returned s''
           | None \<Rightarrow> Returned s'))"

section \<open>The web server\<close>

record stats =
  deleted :: nat
  failed :: nat
  total :: nat

text \<open>The globals \<open>deleter\<close>, \<open>deletionInProgress\<close> and \<open>deletionStats\<close>.\<close>

record server = world +
  the_deleter :: "deleter option"
  deletionInProgress :: bool
  deletionStats :: stats

definition srv_event :: "event \<Rightarrow> server \<Rightarrow> server" where
  "srv_event e s = s\<lparr> trace := trace s @ [e] \<rparr>"

datatype http_response =
    Error400 string
  | Started nat

text \<open>
  \<open>POST /api/delete-tweets\<close> up to the call of \<open>processDeletion\<close>. The body is the
  array \<open>tweetIds\<close>, or \<open>None\<close> when the field is missing or not an array.
\<close>

definition post_delete_tweets :: "string list option \<Rightarrow> server \<Rightarrow> http_response \<times> server" where
  "post_delete_tweets body s =
     (if the_deleter s = None then (Error400 ''Not initialized'', s)
      else if deletionInProgress s then (Error400 ''Deletion already in progress'', s)
      else case body of
             None \<Rightarrow> (Error400 ''No tweet IDs provided'', s)
           | Some tweetIds \<Rightarrow>
               if tweetIds = [] then (Error400 ''No tweet IDs provided'', s)
               else (Started (length tweetIds),
                     s\<lparr> deletionInProgress := True,
                        deletionStats :=
                          \<lparr> deleted = 0, failed = 0, total = length tweetIds \<rparr> \<rparr>))"

text \<open>
  \<open>GET /api/deletion-progress\<close>: the field \<open>progress\<close>,
  \<open>Math.round(((deleted + failed) / total) * 100)\<close>, a quotient and a product of doubles.
  The counters are whole numbers below \<open>2^53\<close>, which doubles hold exactly.
\<close>

definition progress_percent :: "stats \<Rightarrow> int" where
  "progress_percent st =
     (if total st > 0
      then Math_round
             (binary64 (binary64 (of_nat (deleted st + failed st) / of_nat (total st)) * 100))
      else 0)"

definition get_deletion_progress :: "server \<Rightarrow> bool \<times> stats \<times> int" where
  "get_deletion_progress s =
     (deletionInProgress s, deletionStats s, progress_percent (deletionStats s))"

text \<open>
  \<open>POST /api/initialize\<close> has no test of \<open>deletionInProgress\<close>: while a run awaits, the
  server can handle it, and \<open>initializeDeleter\<close> assigns \<open>deleter = new TweetDeleter()\<close>
  at once. The constructor reads \<open>process.env\<close>, which is loaded when the module starts and
  never written, so \<open>parseInt\<close> gives the batch size and the delay it gave for the
  deleter in place; the new object has them and an empty \<open>deletedTweets\<close>. (Without a
  deleter in place the handler builds the first one; a run never is in that state, see
  \<open>active_run_has_deleter\<close>.)
\<close>

definition reinitialize :: "server \<Rightarrow> server" where
  "reinitialize s =
     (case the_deleter s of
        None \<Rightarrow> s
      | Some d \<Rightarrow>
          s\<lparr> trace := trace s @ [Reinitialized],
             the_deleter := Some \<lparr> tweetsPerBatch = tweetsPerBatch d,
                                     batchDelayMinutes = batchDelayMinutes d,
                                     maxDeletionsPerDay = 15,
                                     deletedTweets = [] \<rparr> \<rparr>)"

text \<open>
  An \<open>await\<close> of the run. The list says, for the awaits of the run in their order,
  whether the server handled a \<open>POST /api/initialize\<close> meanwhile; beyond the end of the
  list it handled none. The other handlers change nothing while a run is active.
\<close>

definition await_point :: "bool list \<Rightarrow> server \<Rightarrow> bool list \<times> server" where
  "await_point reqs s =
     (case reqs of
        [] \<Rightarrow> ([], s)
      | b # bs \<Rightarrow> (bs, if b then reinitialize s else s))"

text \<open>
  The argument of \<open>sleep\<close> after a 429 in the server: \<open>minutesUntilReset + 1\<close>, or 15
  minutes.
\<close>

definition srv_rate_limit_wait :: "api_error \<Rightarrow> int \<Rightarrow> int option" where
  "srv_rate_limit_wait error now_ms =
     (case truthy_reset (rate_reset error) of
        Some reset \<Rightarrow> map_option (\<lambda>m. m + 1) (minutesUntilReset reset now_ms)
      | None \<Rightarrow> Some 15)"

definition push_deleted :: "log_entry \<Rightarrow> server \<Rightarrow> server" where
  "push_deleted e s =
     s\<lparr> the_deleter := map_option (\<lambda>d. d\<lparr> deletedTweets := deletedTweets d @ [e] \<rparr>)
                          (the_deleter s) \<rparr>"

definition count_deleted :: "server \<Rightarrow> server" where
  "count_deleted s =
     s\<lparr> deletionStats := (deletionStats s)\<lparr> deleted := deleted (deletionStats s) + 1 \<rparr> \<rparr>"

definition count_failed :: "server \<Rightarrow> server" where
  "count_failed s =
     s\<lparr> deletionStats := (deletionStats s)\<lparr> failed := failed (deletionStats s) + 1 \<rparr> \<rparr>"

text \<open>
  The body of \<open>for (const tweet of batch)\<close> for one tweet, with a deleter in place. It
  returns the new value of the outer loop's \<open>i\<close>: after a 429 the code runs
  \<open>i--; continue\<close>, which lowers the index of the batch loop and goes on with the next
  tweet of the batch. The global \<open>deleter\<close> is read again after each \<open>await\<close>: the
  push goes to the object that is in place then.
\<close>

definition srv_attempt :: "tweet \<Rightarrow> int \<Rightarrow> reply \<Rightarrow> bool list \<Rightarrow> server
    \<Rightarrow> int \<times> bool list \<times> server" where
  "srv_attempt tw i r reqs s =
     (case await_point reqs (srv_event (Attempt (tweet_id tw)) s) of
        (reqs1, s1) \<Rightarrow>
          (case deleteTweet (tweet_id tw) (fst r) of
             Inr result \<Rightarrow>
               (case await_point reqs1
                       (srv_event (ItemPause 1000)
                          (if success result
                           then srv_event (Deleted (tweet_id tw) (snd r))
                                  (push_deleted
                                     \<lparr> entry_id = tweet_id tw, entry_text = None,
                                       entry_created_at = None, deleted_at = snd r \<rparr>
                                     (count_deleted s1))
                           else srv_event (Failed (tweet_id tw)) (count_failed s1)))
                of (reqs2, s2) \<Rightarrow> (i, reqs2, s2))
           | Inl error \<Rightarrow>
               if err_code error = 429
               then (case await_point reqs1
                            (srv_event (RateLimitSleep (srv_rate_limit_wait error (snd r))
                                          (sleep (srv_rate_limit_wait error (snd r)))) s1)
                     of (reqs2, s2) \<Rightarrow> (i - 1, reqs2, s2))
               else (i, reqs1, srv_event (Failed (tweet_id tw)) (count_failed s1))))"

text \<open>
  \<open>for (const tweet of batch)\<close>. Without a deleter \<open>deleter.deleteTweet\<close> is a
  TypeError inside the \<open>try\<close>: no call is made, and the \<open>catch\<close> counts the tweet as
  failed.
\<close>

fun srv_items :: "tweet list \<Rightarrow> int \<Rightarrow> reply list \<Rightarrow> bool list \<Rightarrow> server
    \<Rightarrow> (int \<times> bool list \<times> server) \<times> reply list option" where
  "srv_items [] i rs reqs s = ((i, reqs, s), Some rs)"
| "srv_items (tw # batch) i rs reqs s =
     (case the_deleter s of
        None \<Rightarrow> srv_items batch i rs reqs (srv_event (Failed (tweet_id tw)) (count_failed s))
      | Some d \<Rightarrow>
          (case rs of
             [] \<Rightarrow> ((i, reqs, s), None)
           | r # rs' \<Rightarrow>
               (case srv_attempt tw i r reqs s of
                  (i', reqs', s') \<Rightarrow> srv_items batch i' rs' reqs' s')))"

text \<open>
  The end of a turn of the batch loop: \<open>if (i + deleter.tweetsPerBatch < tweets.length)
  await deleter.sleep(deleter.batchDelayMinutes)\<close>, then the loop's
  \<open>i += deleter.tweetsPerBatch\<close>. \<open>None\<close> stands for the TypeError of a missing
  deleter.
\<close>

definition srv_batch_end :: "tweet list \<Rightarrow> int \<Rightarrow> bool list \<Rightarrow> server
    \<Rightarrow> (int \<times> bool list \<times> server) option" where
  "srv_batch_end tweets i reqs s =
     (case the_deleter s of
        None \<Rightarrow> None
      | Some d \<Rightarrow>
          (case (if i + tweetsPerBatch d < int (length tweets)
                 then await_point reqs
                        (srv_event (BatchSleep (batchDelayMinutes d)
                                      (sleep (Some (batchDelayMinutes d)))) s)
                 else (reqs, s))
           of (reqs', s') \<Rightarrow>
                (case the_deleter s' of
                   None \<Rightarrow> None
                 | Some d' \<Rightarrow> Some (i + tweetsPerBatch d', reqs', s'))))"

text \<open>
  \<open>for (let i = 0; i < tweets.length; i += deleter.tweetsPerBatch)\<close> in
  \<open>processDeletion\<close>. The first argument bounds the number of turns of this loop.
  \<open>Threw\<close> is the TypeError of a missing deleter, which leaves the loop.
\<close>

fun srv_batches :: "nat \<Rightarrow> tweet list \<Rightarrow> int \<Rightarrow> reply list \<Rightarrow> bool list \<Rightarrow> server
    \<Rightarrow> (bool list \<times> server) run" where
  "srv_batches 0 tweets i rs reqs s = OutOfFuel (reqs, s)"
| "srv_batches (Suc fuel) tweets i rs reqs s =
     (if i < int (length tweets)
      then
        (case the_deleter s of
           None \<Rightarrow> Threw (reqs, s)
         | Some d \<Rightarrow>
             (let batch = slice tweets i (i + tweetsPerBatch d)
              in case srv_items batch i rs reqs (srv_event (Batch (map tweet_id batch)) s) of
                   ((i', reqs', s'), None) \<Rightarrow> Awaiting (reqs', s')
                 | ((i', reqs', s'), Some rs') \<Rightarrow>
                     (case srv_batch_end tweets i' reqs' s' of
                        None \<Rightarrow> Threw (reqs', s')
                      | Some (i'', reqs'', s'') \<Rightarrow>
                          srv_batches fuel tweets i'' rs' reqs'' s'')))
      else Returned (reqs, s))"

text \<open>
  \<open>deleter.saveDeletionLog()\<close> from the server. The text of the file is made from the
  array of the deleter in place at the call; then the write is awaited. \<open>Inl\<close> stands
  for an exception (no deleter, a rejected write), with the state it leaves.
\<close>

definition srv_saveDeletionLog :: "bool \<Rightarrow> bool list \<Rightarrow> server \<Rightarrow> server + server" where
  "srv_saveDeletionLog write_ok reqs s =
     (case the_deleter s of
        None \<Rightarrow> Inl s
      | Some d \<Rightarrow>
          (case await_point reqs s of
             (reqs', s') \<Rightarrow>
               if write_ok
               then Inr (srv_event LogSaved (s'\<lparr> log_file := Some (deletedTweets d) \<rparr>))
               else Inl s'))"

text \<open>
  \<open>processDeletion\<close>. An exception inside the \<open>try\<close> (a missing deleter, a rejected
  write of the log) is caught and logged; \<open>finally\<close> clears \<open>deletionInProgress\<close>
  on every way out.
\<close>

definition processDeletion :: "nat \<Rightarrow> string list \<Rightarrow> reply list \<Rightarrow> bool list \<Rightarrow> bool
    \<Rightarrow> server \<Rightarrow> server run" where
  "processDeletion fuel tweetIds rs reqs write_ok s =
     (let tweets = map (\<lambda>tid. \<lparr> tweet_id = tid, tweet_text = None, created_at = None \<rparr>) tweetIds
      in case srv_batches fuel tweets 0 rs reqs s of
           Awaiting (reqs', s') \<Rightarrow> Awaiting s'
         | OutOfFuel (reqs', s') \<Rightarrow> OutOfFuel s'
         | Threw (reqs', s') \<Rightarrow> Returned (s'\<lparr> deletionInProgress := False \<rparr>)
         | Returned (reqs', s') \<Rightarrow>
             (case srv_saveDeletionLog write_ok reqs' s' of
                Inr s'' \<Rightarrow> Returned (s''\<lparr> deletionInProgress := False \<rparr>)
              | Inl s'' \<Rightarrow> Returned (s''\<lparr> deletionInProgress := False \<rparr>)))"

section \<open>Notions used in the statements\<close>

text \<open>The number of items the progress counters have settled, \<open>deleted + failed\<close>.\<close>

definition settled :: "server \<Rightarrow> nat" where
  "settled s = deleted (deletionStats s) + failed (deletionStats s)"

text \<open>The batch size and the batch delay of the deleter in place.\<close>

definition srv_conf :: "server \<Rightarrow> (int \<times> int) option" where
  "srv_conf s = map_option (\<lambda>d. (tweetsPerBatch d, batchDelayMinutes d)) (the_deleter s)"

text \<open>
  The invariant of the batch loop of \<open>processDeletion\<close> at the head of a turn, for batch
  size \<open>B\<close>, \<open>n\<close> tweets, index \<open>i\<close> and \<open>c\<close> settled items. With a positive
  batch size the index never falls below the number of settled items; with any other batch
  size only the first turn can see a tweet.
\<close>

definition srv_inv :: "int \<Rightarrow> nat \<Rightarrow> int \<Rightarrow> nat \<Rightarrow> bool" where
  "srv_inv B n i c \<longleftrightarrow>
     c \<le> n \<and> (if 0 < B then 0 \<le> i \<and> int c \<le> i else i < 0 \<or> (i = 0 \<and> c = 0))"

text \<open>
  The wait the specification asks for after a throttling signal with a reset time:
  \<open>waitMinutes = ceil((resetEpoch - now) / 60) + bufferMinutes\<close>, both times in seconds.
\<close>

definition waitMinutes_spec :: "rat \<Rightarrow> rat \<Rightarrow> int \<Rightarrow> int" where
  "waitMinutes_spec resetEpoch now bufferMinutes = \<lceil>(resetEpoch - now) / 60\<rceil> + bufferMinutes"

text \<open>
  The calls of \<open>sleep\<close> after a 429 in a trace: the argument of each call and the minutes
  it waited.
\<close>

definition rate_limit_sleeps_of :: "event list \<Rightarrow> (int option \<times> nat) list" where
  "rate_limit_sleeps_of tr =
     concat (map (\<lambda>e. case e of RateLimitSleep m w \<Rightarrow> [(m, w)] | _ \<Rightarrow> []) tr)"

text \<open>
  The percentage the specification asks for: \<open>round(100 * (deleted + failed) / total)\<close>
  in exact arithmetic, \<open>0\<close> without a total. \<open>half_way\<close> says that the exact
  percentage lies half-way between two whole numbers.
\<close>

definition percent_spec :: "stats \<Rightarrow> int" where
  "percent_spec st =
     (if total st > 0
      then round (100 * rat_of_nat (deleted st + failed st) / rat_of_nat (total st))
      else 0)"

definition half_way :: "stats \<Rightarrow> bool" where
  "half_way st \<longleftrightarrow>
     0 < total st \<and> (200 * (deleted st + failed st) + total st) mod (2 * total st) = 0"

text \<open>A post that is neither a reply (\<open>@\<close>) nor a retweet (\<open>RT @\<close>).\<close>

definition original_post :: "tweet \<Rightarrow> bool" where
  "original_post t =
     (case tweet_text t of
        None \<Rightarrow> False
      | Some txt \<Rightarrow> \<not> startsWith txt ''@'' \<and> \<not> startsWith txt ''RT @'')"

text \<open>
  Projections of a trace: the chunks cut and the waits between batches (the argument of
  each call of \<open>sleep\<close> between two batches).
\<close>

definition batches_of :: "event list \<Rightarrow> string list list" where
  "batches_of tr = concat (map (\<lambda>e. case e of Batch ids \<Rightarrow> [ids] | _ \<Rightarrow> []) tr)"

definition batch_sleeps_of :: "event list \<Rightarrow> int list" where
  "batch_sleeps_of tr = concat (map (\<lambda>e. case e of BatchSleep m w \<Rightarrow> [m] | _ \<Rightarrow> []) tr)"

text \<open>
  The partition the specification asks for: contiguous chunks of exactly \<open>B\<close> items,
  the last chunk possibly shorter.
\<close>

function chunks_spec :: "nat \<Rightarrow> 'a list \<Rightarrow> 'a list list" where
  "chunks_spec B xs =
     (if B = 0 \<or> xs = [] then [] else take B xs # chunks_spec B (drop B xs))"
  by pat_completeness auto
termination
  by (relation "measure (\<lambda>(B, xs). length xs)") auto

declare chunks_spec.simps [simp del]

text \<open>
  What the handling of the items of a batch leaves alone on the command line: the batch
  size, the batch delay, and the chunks and waits between batches seen so far.
\<close>

definition cli_frame :: "cli_state \<Rightarrow> cli_state \<Rightarrow> bool" where
  "cli_frame s s' \<longleftrightarrow>
     tweetsPerBatch (this s') = tweetsPerBatch (this s) \<and>
     batchDelayMinutes (this s') = batchDelayMinutes (this s) \<and>
     batches_of (trace s') = batches_of (trace s) \<and>
     batch_sleeps_of (trace s') = batch_sleeps_of (trace s)"

text \<open>A reply that makes \<open>deleteTweet\<close> throw: an error with code 429.\<close>

definition throttled :: "reply \<Rightarrow> bool" where
  "throttled r = (case fst r of Resolved \<Rightarrow> False | Raised error \<Rightarrow> err_code error = 429)"

text \<open>What the handling of the items of a batch leaves alone in the server.\<close>

definition srv_frame :: "server \<Rightarrow> server \<Rightarrow> bool" where
  "srv_frame s s' \<longleftrightarrow>
     srv_conf s' = srv_conf s \<and>
     batches_of (trace s') = batches_of (trace s) \<and>
     batch_sleeps_of (trace s') = batch_sleeps_of (trace s)"

text \<open>
  Further projections of a trace: the successful deletions with their clock readings, and
  the tweets with a terminal outcome (deleted or failed), both in the order of the trace.
\<close>

definition deleted_of :: "event list \<Rightarrow> (string \<times> int) list" where
  "deleted_of tr = concat (map (\<lambda>e. case e of Deleted tid t \<Rightarrow> [(tid, t)] | _ \<Rightarrow> []) tr)"

definition terminal_ids :: "event list \<Rightarrow> string list" where
  "terminal_ids tr =
     concat (map (\<lambda>e. case e of Deleted tid t \<Rightarrow> [tid] | Failed tid \<Rightarrow> [tid] | _ \<Rightarrow> []) tr)"

text \<open>
  The claim about the log as the specification words it: the file holds one record for
  every terminal outcome, in the order of the attempts.
\<close>

definition log_records_outcomes :: "event list \<Rightarrow> log_entry list option \<Rightarrow> bool" where
  "log_records_outcomes tr file =
     (case file of None \<Rightarrow> False | Some entries \<Rightarrow> map entry_id entries = terminal_ids tr)"

text \<open>
  The invariant of a run for the log: the array \<open>deletedTweets\<close> is what it was before
  the run, followed by one entry for every \<open>Deleted\<close> event of the trace.
\<close>

definition entry_key :: "log_entry \<Rightarrow> string \<times> int" where
  "entry_key e = (entry_id e, deleted_at e)"

definition log_inv :: "log_entry list \<Rightarrow> event list \<Rightarrow> log_entry list \<Rightarrow> bool" where
  "log_inv before tr entries \<longleftrightarrow>
     take (length before) entries = before \<and>
     map entry_key (drop (length before) entries) = deleted_of tr"

text \<open>
  In the server the invariant holds as long as no \<open>POST /api/initialize\<close> has replaced
  the deleter.
\<close>

definition srv_log_inv :: "log_entry list \<Rightarrow> server \<Rightarrow> bool" where
  "srv_log_inv before s =
     (case the_deleter s of
        None \<Rightarrow> False
      | Some d \<Rightarrow> Reinitialized \<in> set (trace s) \<or> log_inv before (trace s) (deletedTweets d))"

definition cli_log_inv :: "log_entry list \<Rightarrow> cli_state \<Rightarrow> bool" where
  "cli_log_inv before s = log_inv before (trace s) (deletedTweets (this s))"

section \<open>Facts about \<open>slice\<close>\<close>

lemma slice_length_pos:
  "0 \<le> i \<Longrightarrow> i < int (length xs) \<Longrightarrow> 0 < B \<Longrightarrow>
   int (length (slice xs i (i + B))) \<le> B \<and>
   int (length (slice xs i (i + B))) \<le> int (length xs) - i"
  by (auto simp: slice_def Let_def)

lemma slice_empty_neg: "B \<le> 0 \<Longrightarrow> i < 0 \<Longrightarrow> slice xs i (i + B) = []"
  by (simp add: slice_def Let_def)

lemma slice_zero_zero: "slice xs 0 0 = []"
  by (simp add: slice_def Let_def)

lemma take_drop_length_le: "length (take n (drop k xs)) \<le> length xs"
  by simp

lemma slice_length_le: "length (slice xs i j) \<le> length xs"
  unfolding slice_def Let_def by (rule take_drop_length_le)

section \<open>What an await leaves alone\<close>

lemma reinitialize_keeps [simp]:
  "deletionStats (reinitialize s) = deletionStats s"
  "srv_conf (reinitialize s) = srv_conf s"
  "deletionInProgress (reinitialize s) = deletionInProgress s"
  "log_file (reinitialize s) = log_file s"
  by (simp_all add: reinitialize_def srv_conf_def split: option.splits)

lemma await_point_keeps [simp]:
  "deletionStats (snd (await_point reqs s)) = deletionStats s"
  "srv_conf (snd (await_point reqs s)) = srv_conf s"
  "deletionInProgress (snd (await_point reqs s)) = deletionInProgress s"
  "log_file (snd (await_point reqs s)) = log_file s"
  by (simp_all add: await_point_def split: list.splits)

lemma srv_event_keeps [simp]:
  "deletionStats (srv_event e s) = deletionStats s"
  "srv_conf (srv_event e s) = srv_conf s"
  "the_deleter (srv_event e s) = the_deleter s"
  "deletionInProgress (srv_event e s) = deletionInProgress s"
  "log_file (srv_event e s) = log_file s"
  "trace (srv_event e s) = trace s @ [e]"
  by (simp_all add: srv_event_def srv_conf_def)

lemma count_keeps [simp]:
  "srv_conf (count_deleted s) = srv_conf s"
  "srv_conf (count_failed s) = srv_conf s"
  "srv_conf (push_deleted e s) = srv_conf s"
  "total (deletionStats (count_deleted s)) = total (deletionStats s)"
  "total (deletionStats (count_failed s)) = total (deletionStats s)"
  "deletionStats (push_deleted e s) = deletionStats s"
  by (simp_all add: srv_conf_def count_deleted_def count_failed_def push_deleted_def
        option.map_comp comp_def)

lemma settled_keeps [simp]:
  "settled (snd (await_point reqs s)) = settled s"
  "settled (srv_event e s) = settled s"
  "settled (push_deleted en s) = settled s"
  "settled (count_deleted s) = settled s + 1"
  "settled (count_failed s) = settled s + 1"
  by (simp_all add: settled_def count_deleted_def count_failed_def)

section \<open>The progress counters of the server\<close>

lemma srv_attempt_count:
  assumes "srv_attempt tw i r reqs s = (i', reqs', s')"
  shows "total (deletionStats s') = total (deletionStats s) \<and> i' \<le> i \<and>
         settled s \<le> settled s' \<and>
         int (settled s') + (i - i') = int (settled s) + 1 \<and>
         srv_conf s' = srv_conf s"
  using assms
  by (auto simp: srv_attempt_def split_beta prod_eq_iff split: sum.splits if_splits)

lemma srv_items_count:
  "srv_items batch i rs reqs s = ((i', reqs', s'), ro) \<Longrightarrow>
   total (deletionStats s') = total (deletionStats s) \<and> i' \<le> i \<and>
   settled s \<le> settled s' \<and>
   int (settled s') + (i - i') \<le> int (settled s) + int (length batch) \<and>
   srv_conf s' = srv_conf s"
proof (induction batch i rs reqs s rule: srv_items.induct)
  case (1 i rs reqs s)
  then show ?case by simp
next
  case (2 tw batch i rs reqs s)
  show ?case
  proof (cases "the_deleter s")
    case None
    let ?s1 = "srv_event (Failed (tweet_id tw)) (count_failed s)"
    from 2 None have "srv_items batch i rs reqs ?s1 = ((i', reqs', s'), ro)" by simp
    from "2.IH"(1) [OF None this] show ?thesis by simp
  next
    case (Some d)
    show ?thesis
    proof (cases rs)
      case Nil
      with 2 Some show ?thesis by simp
    next
      case (Cons r rs1)
      obtain i1 reqs1 s1 where a: "srv_attempt tw i r reqs s = (i1, reqs1, s1)"
        by (metis prod.exhaust)
      with 2 Some Cons have rest: "srv_items batch i1 rs1 reqs1 s1 = ((i', reqs', s'), ro)"
        by simp
      from "2.IH"(2) [OF Some Cons a [symmetric] refl rest] srv_attempt_count [OF a]
      show ?thesis by simp
    qed
  qed
qed

lemma srv_batch_step:
  assumes inv: "srv_inv B (length tweets) i (settled s0)"
    and lt: "i < int (length tweets)"
    and items: "srv_items (slice tweets i (i + B)) i rs reqs s0 = ((i', reqs', s'), ro)"
  shows "settled s' \<le> length tweets \<and> srv_inv B (length tweets) (i' + B) (settled s')"
proof -
  let ?m = "int (length (slice tweets i (i + B)))"
  from srv_items_count [OF items]
  have c: "i' \<le> i" "settled s0 \<le> settled s'"
    "int (settled s') + (i - i') \<le> int (settled s0) + ?m" by simp_all
  show ?thesis
  proof (cases "0 < B")
    case True
    with inv have i0: "0 \<le> i" "int (settled s0) \<le> i" by (simp_all add: srv_inv_def)
    from slice_length_pos [OF i0(1) lt True]
    have "?m \<le> B" "?m \<le> int (length tweets) - i" by simp_all
    with c i0 True show ?thesis by (simp add: srv_inv_def)
  next
    case False
    with inv have alt: "i < 0 \<or> (i = 0 \<and> settled s0 = 0)" and le: "settled s0 \<le> length tweets"
      by (simp_all add: srv_inv_def)
    show ?thesis
    proof (cases "i < 0")
      case True
      with False have "slice tweets i (i + B) = []" by (simp add: slice_empty_neg)
      with c True False le show ?thesis by (simp add: srv_inv_def)
    next
      case nonneg: False
      with alt have z: "i = 0" "settled s0 = 0" by simp_all
      have m: "?m \<le> int (length tweets)" using slice_length_le [of tweets i "i + B"] by simp
      show ?thesis
      proof (cases "B = 0")
        case True
        with z have "slice tweets i (i + B) = []" by (simp add: slice_zero_zero)
        with c z True show ?thesis by (simp add: srv_inv_def)
      next
        case False
        with \<open>\<not> 0 < B\<close> have "B < 0" by simp
        with c z m show ?thesis by (simp add: srv_inv_def)
      qed
    qed
  qed
qed

lemma srv_batch_end_Some:
  assumes "srv_conf s = Some (B, D)"
  shows "\<exists>reqs' s'. srv_batch_end tweets i reqs s = Some (i + B, reqs', s') \<and>
           deletionStats s' = deletionStats s \<and> srv_conf s' = Some (B, D)"
proof -
  from assms obtain d where d: "the_deleter s = Some d" "tweetsPerBatch d = B"
    "batchDelayMinutes d = D"
    by (auto simp: srv_conf_def)
  show ?thesis
  proof (cases "i + B < int (length tweets)")
    case False
    with d assms show ?thesis by (simp add: srv_batch_end_def)
  next
    case True
    obtain reqs1 s1 where a: "await_point reqs (srv_event (BatchSleep D (sleep (Some D))) s) = (reqs1, s1)"
      by (cases "await_point reqs (srv_event (BatchSleep D (sleep (Some D))) s)")
    have c: "srv_conf s1 = Some (B, D)" "deletionStats s1 = deletionStats s"
      using await_point_keeps(1,2) [of reqs "srv_event (BatchSleep D (sleep (Some D))) s"] a assms
      by simp_all
    then obtain d' where d': "the_deleter s1 = Some d'" "tweetsPerBatch d' = B"
      by (auto simp: srv_conf_def)
    from d d' True a have "srv_batch_end tweets i reqs s = Some (i + B, reqs1, s1)"
      by (simp add: srv_batch_end_def)
    with c show ?thesis by blast
  qed
qed

lemma srv_batches_count:
  assumes "srv_inv B (length tweets) i (settled s)" and "srv_conf s = Some (B, D)"
  shows "settled (snd (run_state (srv_batches fuel tweets i rs reqs s))) \<le> length tweets \<and>
         total (deletionStats (snd (run_state (srv_batches fuel tweets i rs reqs s)))) =
           total (deletionStats s)"
  using assms
proof (induction fuel arbitrary: i rs reqs s)
  case 0
  then show ?case by (simp add: srv_inv_def)
next
  case (Suc fuel)
  show ?case
  proof (cases "i < int (length tweets)")
    case False
    with Suc.prems show ?thesis by (simp add: srv_inv_def)
  next
    case True
    from Suc.prems(2) obtain d where d: "the_deleter s = Some d" "tweetsPerBatch d = B"
      by (auto simp: srv_conf_def)
    let ?s0 = "srv_event (Batch (map tweet_id (slice tweets i (i + B)))) s"
    obtain i1 reqs1 s1 ro where
      items: "srv_items (slice tweets i (i + B)) i rs reqs ?s0 = ((i1, reqs1, s1), ro)"
      by (metis prod.exhaust)
    from Suc.prems have inv0: "srv_inv B (length tweets) i (settled ?s0)" by simp
    note step = srv_batch_step [OF inv0 True items]
    from srv_items_count [OF items] Suc.prems(2)
    have keep: "total (deletionStats s1) = total (deletionStats s)" "srv_conf s1 = Some (B, D)"
      by simp_all
    show ?thesis
    proof (cases ro)
      case None
      with True d items step keep show ?thesis by (simp add: Let_def)
    next
      case (Some rs')
      from srv_batch_end_Some [OF keep(2), of tweets i1 reqs1]
      obtain reqs2 s2 where e: "srv_batch_end tweets i1 reqs1 s1 = Some (i1 + B, reqs2, s2)"
        and s2: "deletionStats s2 = deletionStats s1" "srv_conf s2 = Some (B, D)"
        by blast
      from s2 have "settled s2 = settled s1" by (simp add: settled_def)
      with step have "srv_inv B (length tweets) (i1 + B) (settled s2)" by simp
      from Suc.IH [OF this s2(2), of rs' reqs2] s2 keep True d items Some e
      show ?thesis by (simp add: Let_def)
    qed
  qed
qed

text \<open>
  C2. In a run started by \<open>POST /api/delete-tweets\<close>, at every point the run can be
  in (it awaits the endpoint, it is between two batches, or it has returned; for every
  batch size, every sequence of replies and every interleaving of
  \<open>POST /api/initialize\<close>) the counters satisfy \<open>deleted + failed \<le> total\<close>, and
  \<open>total\<close> is the length of the submitted list.
\<close>

theorem progress_counters_bounded:
  assumes "post_delete_tweets (Some tweetIds) s = (Started n, s1)"
    and "st = run_state (processDeletion fuel tweetIds rs reqs write_ok s1)"
  shows "deleted (deletionStats st) + failed (deletionStats st) \<le> total (deletionStats st) \<and>
         total (deletionStats st) = length tweetIds"
proof -
  let ?tweets = "map (\<lambda>tid. \<lparr> tweet_id = tid, tweet_text = None, created_at = None \<rparr>) tweetIds"
  from assms(1) obtain d where d: "the_deleter s1 = Some d"
    and start: "settled s1 = 0" "total (deletionStats s1) = length tweetIds"
    by (auto simp: post_delete_tweets_def settled_def split: if_splits)
  let ?r = "srv_batches fuel ?tweets 0 rs reqs s1"
  have conf: "srv_conf s1 = Some (tweetsPerBatch d, batchDelayMinutes d)"
    using d by (simp add: srv_conf_def)
  have "srv_inv (tweetsPerBatch d) (length ?tweets) 0 (settled s1)"
    using start by (simp add: srv_inv_def)
  from srv_batches_count [OF this conf, of fuel rs reqs] start
  have loop: "settled (snd (run_state ?r)) \<le> length tweetIds"
    "total (deletionStats (snd (run_state ?r))) = length tweetIds" by simp_all
  have "deletionStats st = deletionStats (snd (run_state ?r))"
    using assms(2)
    by (cases ?r)
       (auto simp: processDeletion_def Let_def srv_saveDeletionLog_def split_beta
             split: option.splits if_splits)
  with loop show ?thesis by (simp add: settled_def)
qed

theorem progress_counters_bounded_witness:
  "post_delete_tweets (Some [''1'', ''2''])
     \<lparr> trace = [], log_file = None, the_deleter = Some (new_TweetDeleter None None),
       deletionInProgress = False,
       deletionStats = \<lparr> deleted = 0, failed = 0, total = 0 \<rparr> \<rparr>
   = (Started 2,
      \<lparr> trace = [], log_file = None, the_deleter = Some (new_TweetDeleter None None),
       deletionInProgress = True,
       deletionStats = \<lparr> deleted = 0, failed = 0, total = 2 \<rparr> \<rparr>)
   \<and> (let st = run_state (processDeletion 3 [''1'', ''2'']
              [(Resolved, 5), (Raised \<lparr> err_code = 404, err_message = ''Not Found'', rate_reset = None \<rparr>, 9)]
              [False, True] True
              \<lparr> trace = [], log_file = None, the_deleter = Some (new_TweetDeleter None None),
                deletionInProgress = True,
                deletionStats = \<lparr> deleted = 0, failed = 0, total = 2 \<rparr> \<rparr>)
      in deleted (deletionStats st) + failed (deletionStats st) \<le> total (deletionStats st) \<and>
         total (deletionStats st) = 2)"
proof -
  have h: "post_delete_tweets (Some [''1'', ''2''])
     \<lparr> trace = [], log_file = None, the_deleter = Some (new_TweetDeleter None None),
       deletionInProgress = False,
       deletionStats = \<lparr> deleted = 0, failed = 0, total = 0 \<rparr> \<rparr>
   = (Started 2,
      \<lparr> trace = [], log_file = None, the_deleter = Some (new_TweetDeleter None None),
       deletionInProgress = True,
       deletionStats = \<lparr> deleted = 0, failed = 0, total = 2 \<rparr> \<rparr>)"
    by (simp add: post_delete_tweets_def)
  from progress_counters_bounded [OF h refl, of 3 "[(Resolved, 5), (Raised \<lparr> err_code = 404, err_message = ''Not Found'', rate_reset = None \<rparr>, 9)]" "[False, True]" True] h
  show ?thesis by (simp add: Let_def)
qed

section \<open>The deleter during a run\<close>

text \<open>
  A run never removes the deleter, and \<open>POST /api/initialize\<close> only replaces it by
  another one, so an active run always has one.
\<close>

lemma srv_conf_None: "srv_conf s = None \<longleftrightarrow> the_deleter s = None"
  by (simp add: srv_conf_def)

lemma await_point_deleter:
  "(\<exists>d. the_deleter (snd (await_point reqs s)) = Some d) \<longleftrightarrow> (\<exists>d. the_deleter s = Some d)"
  using await_point_keeps(2) [of reqs s]
  by (cases "the_deleter s"; cases "the_deleter (snd (await_point reqs s))")
     (simp_all add: srv_conf_def)

lemma srv_batches_deleter:
  "the_deleter s \<noteq> None \<Longrightarrow>
   the_deleter (snd (run_state (srv_batches fuel tweets i rs reqs s))) \<noteq> None"
proof (induction fuel arbitrary: i rs reqs s)
  case 0
  then show ?case by simp
next
  case (Suc fuel)
  show ?case
  proof (cases "i < int (length tweets)")
    case False
    with Suc.prems show ?thesis by simp
  next
    case True
    from Suc.prems obtain d where d: "the_deleter s = Some d" by blast
    let ?batch = "slice tweets i (i + tweetsPerBatch d)"
    let ?s0 = "srv_event (Batch (map tweet_id ?batch)) s"
    obtain i1 reqs1 s1 ro where
      items: "srv_items ?batch i rs reqs ?s0 = ((i1, reqs1, s1), ro)"
      by (metis prod.exhaust)
    from srv_items_count [OF items] d
    have d1: "the_deleter s1 \<noteq> None"
      by (auto simp: srv_conf_def)
    show ?thesis
    proof (cases ro)
      case None
      with True d items d1 show ?thesis by (simp add: Let_def)
    next
      case (Some rs')
      from d1 obtain B D where c1: "srv_conf s1 = Some (B, D)"
        by (auto simp: srv_conf_def)
      from srv_batch_end_Some [OF c1, of tweets i1 reqs1]
      obtain reqs2 s2 where e: "srv_batch_end tweets i1 reqs1 s1 = Some (i1 + B, reqs2, s2)"
        and s2: "srv_conf s2 = Some (B, D)"
        by blast
      from s2 have "the_deleter s2 \<noteq> None" by (auto simp: srv_conf_def)
      from Suc.IH [OF this, of "i1 + B" rs' reqs2] True d items Some e
      show ?thesis by (simp add: Let_def)
    qed
  qed
qed

lemma active_run_has_deleter:
  assumes "post_delete_tweets body s = (Started n, s1)"
  shows "the_deleter (run_state (processDeletion fuel tweetIds rs reqs write_ok s1)) \<noteq> None"
proof -
  from assms have d: "the_deleter s1 \<noteq> None"
    by (auto simp: post_delete_tweets_def split: if_splits option.splits)
  let ?tweets = "map (\<lambda>tid. \<lparr> tweet_id = tid, tweet_text = None, created_at = None \<rparr>) tweetIds"
  let ?r = "srv_batches fuel ?tweets 0 rs reqs s1"
  from d have "the_deleter (snd (run_state ?r)) \<noteq> None"
    by (rule srv_batches_deleter)
  then show ?thesis
    by (cases ?r)
       (auto simp: processDeletion_def Let_def srv_saveDeletionLog_def split_beta
                   await_point_deleter
             split: option.splits)
qed

section \<open>Starting a run\<close>

text \<open>
  C7. A \<open>POST /api/delete-tweets\<close> that arrives while a run is active is answered with
  the error \<open>Deletion already in progress\<close>, and the state of the server (the counters
  and the flag \<open>deletionInProgress\<close> among it) is left as it was. The handler tests
  the deleter first; a run is only ever started with a deleter in place.
\<close>

theorem startRun_rejected_while_running:
  assumes "deletionInProgress s" and "the_deleter s \<noteq> None"
  shows "post_delete_tweets body s = (Error400 ''Deletion already in progress'', s)"
  using assms by (simp add: post_delete_tweets_def)

theorem startRun_rejected_while_running_witness:
  "post_delete_tweets (Some [''7''])
     \<lparr> trace = [], log_file = None, the_deleter = Some (new_TweetDeleter None None),
       deletionInProgress = True,
       deletionStats = \<lparr> deleted = 1, failed = 0, total = 3 \<rparr> \<rparr>
   = (Error400 ''Deletion already in progress'',
      \<lparr> trace = [], log_file = None, the_deleter = Some (new_TweetDeleter None None),
       deletionInProgress = True,
       deletionStats = \<lparr> deleted = 1, failed = 0, total = 3 \<rparr> \<rparr>)"
  by (rule startRun_rejected_while_running) simp_all

section \<open>The end of \<open>processDeletion\<close>\<close>

text \<open>
  C10. When \<open>processDeletion\<close> returns, after the last batch and the writing of the log
  or after an exception caught by its outer \<open>try\<close> (no deleter, a rejected write),
  \<open>deletionInProgress\<close> is false, and the next \<open>POST /api/delete-tweets\<close> is not
  answered with \<open>Deletion already in progress\<close>.
\<close>

theorem processDeletion_returns_idle:
  assumes "processDeletion fuel tweetIds rs reqs write_ok s = Returned s'"
  shows "\<not> deletionInProgress s' \<and>
         fst (post_delete_tweets body s') \<noteq> Error400 ''Deletion already in progress''"
proof -
  have "\<not> deletionInProgress s'"
    using assms
    by (auto simp: processDeletion_def Let_def srv_saveDeletionLog_def split_beta
             split: option.splits run.splits if_splits sum.splits)
  then show ?thesis
    by (auto simp: post_delete_tweets_def split: option.splits)
qed

theorem processDeletion_returns_idle_witness:
  "\<exists>s'. processDeletion 2 [''1''] [(Resolved, 5)] [] False
          \<lparr> trace = [], log_file = None, the_deleter = Some (new_TweetDeleter None None),
            deletionInProgress = True,
            deletionStats = \<lparr> deleted = 0, failed = 0, total = 1 \<rparr> \<rparr> = Returned s' \<and>
        \<not> deletionInProgress s' \<and>
        fst (post_delete_tweets (Some [''2'']) s') \<noteq> Error400 ''Deletion already in progress''"
proof -
  have r: "processDeletion 2 [''1''] [(Resolved, 5)] [] False
          \<lparr> trace = [], log_file = None, the_deleter = Some (new_TweetDeleter None None),
            deletionInProgress = True,
            deletionStats = \<lparr> deleted = 0, failed = 0, total = 1 \<rparr> \<rparr> =
     Returned
          \<lparr> trace = [Batch [''1''], Attempt ''1'', Deleted ''1'' 5, ItemPause 1000],
            log_file = None,
            the_deleter = Some
              \<lparr> tweetsPerBatch = 5, batchDelayMinutes = 90, maxDeletionsPerDay = 15,
                deletedTweets = [\<lparr> entry_id = ''1'', entry_text = None,
                                  entry_created_at = None, deleted_at = 5 \<rparr>] \<rparr>,
            deletionInProgress = False,
            deletionStats = \<lparr> deleted = 1, failed = 0, total = 1 \<rparr> \<rparr>"
    by code_simp
  from processDeletion_returns_idle [OF r, of "Some [''2'']"] r show ?thesis by blast
qed

section \<open>Rounding to a double\<close>

lemma round_half_even_error: "\<bar>of_int (round_half_even y) - y\<bar> \<le> 1 / 2"
proof -
  define n where "n = \<lfloor>y\<rfloor>"
  define f where "f = y - of_int n"
  have f: "0 \<le> f" "f < 1" unfolding f_def n_def by linarith+
  have r: "round_half_even y =
      (if f < 1 / 2 then n else if 1 / 2 < f then n + 1 else if even n then n else n + 1)"
    by (simp add: round_half_even_def Let_def n_def f_def)
  have y: "y = of_int n + f" by (simp add: f_def)
  show ?thesis
  proof (cases "f < 1 / 2")
    case True
    with f r y show ?thesis by simp
  next
    case False
    show ?thesis
    proof (cases "1 / 2 < f")
      case True
      with f r y show ?thesis by simp
    next
      case eq: False
      with False have "f = 1 / 2" by simp
      with r y show ?thesis by simp
    qed
  qed
qed

lemma round_half_even_of_int [simp]: "round_half_even (of_int n) = n"
  by (simp add: round_half_even_def)

lemma pow2_nonneg: "0 \<le> e \<Longrightarrow> (2::rat) powi e = 2 ^ nat e"
  by (simp add: power_int_def)

lemma pow2_neg: "0 \<le> e \<Longrightarrow> (2::rat) powi (- e) = 1 / 2 ^ nat e"
  by (cases "e = 0") (simp_all add: power_int_def field_simps)

lemma pow2_pos [simp]: "0 < (2::rat) powi e"
  by (simp add: power_int_def)

lemma exponent2_lower:
  assumes "0 < z"
  shows "2 powi (exponent2 z) \<le> z"
proof (cases "1 \<le> z")
  case True
  let ?m = "\<lfloor>z\<rfloor>"
  from True have m: "0 < ?m" by linarith
  from bitlen_bounds [OF m] have "2 ^ nat (bitlen ?m - 1) \<le> ?m" ..
  then have "(of_int (2 ^ nat (bitlen ?m - 1)) :: rat) \<le> of_int ?m" by (simp only: of_int_le_iff)
  also have "\<dots> \<le> z" by linarith
  finally have "(2::rat) ^ nat (bitlen ?m - 1) \<le> z" by simp
  moreover from m have "0 \<le> bitlen ?m - 1" by (simp add: bitlen_alt_def)
  ultimately show ?thesis using True by (simp add: exponent2_def pow2_nonneg)
next
  case False
  let ?w = "1 / z"
  let ?m = "\<lceil>?w\<rceil>"
  let ?b = "bitlen (?m - 1)"
  from False assms have w: "1 < ?w" by (simp add: field_simps)
  then have m: "0 < ?m - 1" by linarith
  from bitlen_bounds [OF m] have "?m - 1 < 2 ^ nat ?b" ..
  then have "?m \<le> 2 ^ nat ?b" by linarith
  then have "(of_int ?m :: rat) \<le> of_int (2 ^ nat ?b)" by (simp only: of_int_le_iff)
  then have "(of_int ?m :: rat) \<le> 2 ^ nat ?b" by simp
  moreover have "?w \<le> of_int ?m" by linarith
  ultimately have "?w \<le> 2 ^ nat ?b" by linarith
  with assms have "1 / 2 ^ nat ?b \<le> z" by (simp add: field_simps)
  then show ?thesis using False by (simp add: exponent2_def pow2_neg bitlen_nonneg)
qed

lemma exponent2_upper:
  assumes "0 < z"
  shows "z < 2 powi (exponent2 z + 1)"
proof (cases "1 \<le> z")
  case True
  let ?m = "\<lfloor>z\<rfloor>"
  from True have m: "0 < ?m" by linarith
  from bitlen_bounds [OF m] have "?m < 2 ^ nat (bitlen ?m)" ..
  then have "?m + 1 \<le> 2 ^ nat (bitlen ?m)" by linarith
  then have "(of_int (?m + 1) :: rat) \<le> of_int (2 ^ nat (bitlen ?m))" by (simp only: of_int_le_iff)
  then have "(of_int ?m + 1 :: rat) \<le> 2 ^ nat (bitlen ?m)" by simp
  moreover have "z < of_int ?m + 1" by linarith
  ultimately have "z < 2 ^ nat (bitlen ?m)" by linarith
  then show ?thesis using True by (simp add: exponent2_def pow2_nonneg bitlen_nonneg)
next
  case False
  let ?w = "1 / z"
  let ?m = "\<lceil>?w\<rceil>"
  let ?b = "bitlen (?m - 1)"
  from False assms have w: "1 < ?w" by (simp add: field_simps)
  then have m: "0 < ?m - 1" by linarith
  then have b: "1 \<le> ?b" by (simp add: bitlen_alt_def)
  from bitlen_bounds [OF m] have "2 ^ nat (?b - 1) \<le> ?m - 1" ..
  then have "(of_int (2 ^ nat (?b - 1)) :: rat) \<le> of_int (?m - 1)" by (simp only: of_int_le_iff)
  then have "(2 :: rat) ^ nat (?b - 1) \<le> of_int ?m - 1" by simp
  moreover have "of_int ?m - 1 < ?w" by linarith
  ultimately have "(2 :: rat) ^ nat (?b - 1) < ?w" by linarith
  with assms have "z < 1 / 2 ^ nat (?b - 1)" by (simp add: field_simps)
  moreover have "- ?b + 1 = - (?b - 1)" by simp
  ultimately show ?thesis using False b pow2_neg [of "?b - 1"]
    by (simp add: exponent2_def)
qed

lemma pow2_mono: "a \<le> b \<Longrightarrow> (2::rat) powi a \<le> 2 powi b"
  by (rule power_int_increasing) simp_all

lemma pow2_less_cancel: "(2::rat) powi a < 2 powi b \<Longrightarrow> a < b"
  using pow2_mono [of b a] by (cases "a < b") auto

lemma exponent2_less:
  assumes "0 < z" and "z < 2 powi k"
  shows "exponent2 z < k"
proof -
  from exponent2_lower [OF assms(1)] assms(2) have "(2::rat) powi (exponent2 z) < 2 powi k"
    by linarith
  then show ?thesis by (rule pow2_less_cancel)
qed


lemma binary64_error:
  assumes "\<bar>z\<bar> < 2 powi k" and "- 1021 \<le> k"
  shows "\<bar>binary64 z - z\<bar> \<le> 2 powi (k - 54)"
proof (cases "z = 0")
  case True
  then show ?thesis by (simp add: binary64_def less_imp_le)
next
  case False
  define e where "e = max (exponent2 \<bar>z\<bar> - 52) (- 1074)"
  define p where "p = (2::rat) powi e"
  define y where "y = z / p"
  define m where "m = (of_int (round_half_even y) :: rat)"
  have p: "0 < p" by (simp add: p_def)
  from False have "0 < \<bar>z\<bar>" by simp
  from exponent2_less [OF this assms(1)] assms(2) have e: "e \<le> k - 53"
    by (simp add: e_def)
  have b: "binary64 z = m * p"
    using False by (simp add: binary64_def Let_def e_def p_def y_def m_def)
  have z: "z = y * p" using p by (simp add: y_def)
  have "binary64 z - z = m * p - y * p" using b z by simp
  then have "binary64 z - z = (m - y) * p" by (simp add: algebra_simps)
  then have "\<bar>binary64 z - z\<bar> = \<bar>m - y\<bar> * p" using p by (simp add: abs_mult)
  also have "\<dots> \<le> (1 / 2) * p"
    using round_half_even_error [of y] p by (intro mult_right_mono) (simp_all add: m_def)
  also have "\<dots> = 2 powi (e - 1)" by (simp add: p_def power_int_diff)
  also have "\<dots> \<le> 2 powi (k - 54)" using e by (intro pow2_mono) simp
  finally show ?thesis .
qed

lemma binary64_of_int:
  assumes "\<bar>n\<bar> < 2 ^ 53"
  shows "binary64 (of_int n) = of_int n"
proof (cases "n = 0")
  case True
  then show ?thesis by (simp add: binary64_def)
next
  case False
  define e where "e = max (exponent2 \<bar>rat_of_int n\<bar> - 52) (- 1074)"
  define j where "j = nat (- e)"
  from False have pos: "0 < \<bar>rat_of_int n\<bar>" by simp
  from assms have "rat_of_int \<bar>n\<bar> < of_int (2 ^ 53)" by (simp only: of_int_less_iff)
  then have "\<bar>rat_of_int n\<bar> < 2 powi 53" by simp
  from exponent2_less [OF pos this] have e: "e \<le> 0" by (simp add: e_def)
  then have p: "(2::rat) powi e = 1 / 2 ^ j"
    using pow2_neg [of "- e"] by (simp add: j_def)
  have "rat_of_int n / 2 powi e = of_int (n * 2 ^ j)" by (simp add: p)
  then have "round_half_even (rat_of_int n / 2 powi e) = n * 2 ^ j"
    by (simp only: round_half_even_of_int)
  then show ?thesis
    using False by (simp add: binary64_def Let_def e_def [symmetric] p)
qed


section \<open>The minutes \<open>sleep\<close> waits\<close>

lemma sleep_loop_minutes: "sleep_loop minutes i waited = waited + nat (minutes - i)"
proof (induction minutes i waited rule: sleep_loop.induct)
  case (1 minutes i waited)
  show ?case
  proof (cases "i < minutes")
    case True
    from "1.IH" [OF True] True show ?thesis
      by (subst sleep_loop.simps) (simp add: nat_diff_distrib)
  next
    case False
    then show ?thesis by (subst sleep_loop.simps) simp
  qed
qed

lemma sleep_minutes: "sleep (Some m) = nat m"
  by (simp add: sleep_def sleep_loop_minutes)

lemma sleep_NaN: "sleep None = 0"
  by (simp add: sleep_def)

section \<open>The minutes until the reset\<close>

text \<open>
  For a reset time that is a valid Date and differs from the clock by less than \<open>2^53\<close>
  milliseconds, the doubles of \<open>Math.ceil((resetTime - new Date()) / (1000 * 60))\<close>
  give the exact ceiling.
\<close>

lemma minutesUntilReset_exact:
  assumes valid: "\<bar>reset * 1000\<bar> \<le> 8640000000000000"
    and near: "\<bar>reset * 1000 - now_ms\<bar> < 2 ^ 53"
  shows "minutesUntilReset reset now_ms =
           Some \<lceil>(rat_of_int reset - rat_of_int now_ms / 1000) / 60\<rceil>"
proof -
  define d where "d = reset * 1000 - now_ms"
  define k where "k = d div 60000"
  define r where "r = d mod 60000"
  define q where "q = rat_of_int d / 60000"
  have d: "d = 60000 * k + r" and r: "0 \<le> r" "r < 60000"
    by (simp_all add: k_def r_def)
  have qk: "q = rat_of_int k + rat_of_int r / 60000"
    by (simp add: q_def d)
  from valid have "\<bar>reset * 1000\<bar> < 2 ^ 53" by simp
  from binary64_of_int [OF this]
  have rt: "binary64 (rat_of_int reset * 1000) = rat_of_int reset * 1000" by simp
  from near have dn: "\<bar>d\<bar> < 2 ^ 53" by (simp add: d_def)
  from binary64_of_int [OF this]
  have diff: "binary64 (rat_of_int reset * 1000 - rat_of_int now_ms) = rat_of_int d"
    by (simp add: d_def)
  have valid': "\<not> 8640000000000000 < \<bar>rat_of_int reset * 1000\<bar>"
  proof -
    from valid have "rat_of_int \<bar>reset * 1000\<bar> \<le> rat_of_int 8640000000000000"
      by (simp only: of_int_le_iff)
    then show ?thesis by simp
  qed
  have m: "minutesUntilReset reset now_ms = Some \<lceil>binary64 q\<rceil>"
    using valid' by (simp add: minutesUntilReset_def Let_def rt diff q_def)
  have spec: "(rat_of_int reset - rat_of_int now_ms / 1000) / 60 = q"
    by (simp add: q_def d_def field_simps)
  have "\<lceil>binary64 q\<rceil> = \<lceil>q\<rceil>"
  proof (cases "r = 0")
    case True
    with qk have qi: "q = rat_of_int k" by simp
    from dn d True have "\<bar>k\<bar> < 2 ^ 53" by simp
    from binary64_of_int [OF this] qi show ?thesis by simp
  next
    case False
    with r have r1: "1 \<le> r" "r \<le> 59999" by simp_all
    then have "rat_of_int 1 \<le> rat_of_int r" "rat_of_int r \<le> rat_of_int 59999"
      by (simp_all only: of_int_le_iff)
    then have fr: "1 / 60000 \<le> rat_of_int r / 60000" "rat_of_int r / 60000 \<le> 59999 / 60000"
      by simp_all
    from dn have "rat_of_int \<bar>d\<bar> < rat_of_int (2 ^ 53)" by (simp only: of_int_less_iff)
    then have "\<bar>rat_of_int d\<bar> < 2 ^ 53" by simp
    then have "\<bar>q\<bar> < 2 ^ 38" by (simp add: q_def)
    then have "\<bar>q\<bar> < 2 powi 38" by simp
    from binary64_error [OF this] have "\<bar>binary64 q - q\<bar> \<le> 2 powi (- 16)" by simp
    then have "\<bar>binary64 q - q\<bar> \<le> 1 / 2 ^ 16" using pow2_neg [of 16] by simp
    then have "binary64 q - q \<le> 1 / 2 ^ 16" "- (binary64 q - q) \<le> 1 / 2 ^ 16"
      by (rule abs_le_D1, rule abs_le_D2)
    with qk fr have b: "rat_of_int (k + 1) - 1 < binary64 q" "binary64 q \<le> rat_of_int (k + 1)"
      by simp_all
    then have "\<lceil>binary64 q\<rceil> = k + 1" by (rule ceiling_unique)
    moreover from qk fr have "rat_of_int (k + 1) - 1 < q" "q \<le> rat_of_int (k + 1)"
      by simp_all
    then have "\<lceil>q\<rceil> = k + 1" by (rule ceiling_unique)
    ultimately show ?thesis by simp
  qed
  with m spec show ?thesis by simp
qed

lemma binary64_large:
  assumes "2 ^ 53 \<le> \<bar>z\<bar>"
  shows "2 ^ 53 - 1 \<le> \<bar>binary64 z\<bar>"
proof -
  let ?e = "exponent2 \<bar>z\<bar>"
  have "(0::rat) < 2 ^ 53" by simp
  from this assms have pos: "0 < \<bar>z\<bar>" by (rule less_le_trans)
  note lo = exponent2_lower [OF pos]
  note up = exponent2_upper [OF pos]
  from assms up have "(2::rat) powi 53 < 2 powi (?e + 1)" by simp
  then have "53 < ?e + 1" by (rule pow2_less_cancel)
  then have k: "- 1021 \<le> ?e + 1" by simp
  have "\<bar>\<bar>z\<bar>\<bar> < 2 powi (?e + 1)" using up by simp
  then have "\<bar>z\<bar> < 2 powi (?e + 1)" by simp
  from binary64_error [OF this k] have err: "\<bar>binary64 z - z\<bar> \<le> 2 powi (?e - 53)" by simp
  have "(2::rat) powi (?e - 53) = 2 powi ?e / 2 powi 53"
    by (rule power_int_diff) simp
  also have "\<dots> \<le> \<bar>z\<bar> / 2 powi 53" using lo by (simp add: divide_right_mono)
  finally have "\<bar>binary64 z - z\<bar> \<le> \<bar>z\<bar> / 2 ^ 53" using err by simp
  moreover have "\<bar>z\<bar> - \<bar>binary64 z - z\<bar> \<le> \<bar>binary64 z\<bar>" by linarith
  ultimately have "\<bar>z\<bar> - \<bar>z\<bar> / 2 ^ 53 \<le> \<bar>binary64 z\<bar>" by linarith
  moreover have "2 ^ 53 - 1 \<le> \<bar>z\<bar> - \<bar>z\<bar> / 2 ^ 53" using assms by simp
  ultimately show ?thesis by linarith
qed

text \<open>A reset time beyond the range of Date: the minutes until the reset are \<open>NaN\<close>.\<close>

lemma minutesUntilReset_invalid_date:
  assumes "8640000000000000 < \<bar>reset * 1000\<bar>"
  shows "minutesUntilReset reset now_ms = None"
proof -
  have "8640000000000000 < \<bar>binary64 (rat_of_int (reset * 1000))\<bar>"
  proof (cases "\<bar>reset * 1000\<bar> < 2 ^ 53")
    case True
    from assms have "rat_of_int 8640000000000000 < rat_of_int \<bar>reset * 1000\<bar>"
      by (simp only: of_int_less_iff)
    with binary64_of_int [OF True] show ?thesis by simp
  next
    case False
    then have "rat_of_int (2 ^ 53) \<le> rat_of_int \<bar>reset * 1000\<bar>"
      by (simp only: of_int_le_iff not_less)
    then have "2 ^ 53 \<le> \<bar>rat_of_int (reset * 1000)\<bar>" by simp
    from binary64_large [OF this] show ?thesis by simp
  qed
  then show ?thesis by (simp add: minutesUntilReset_def Let_def)
qed


section \<open>The wait after a throttling signal\<close>

lemma rate_limit_sleeps_of_append [simp]:
  "rate_limit_sleeps_of (tr @ tr') = rate_limit_sleeps_of tr @ rate_limit_sleeps_of tr'"
  by (simp add: rate_limit_sleeps_of_def)

lemma rate_limit_sleeps_of_single [simp]:
  "rate_limit_sleeps_of [] = []"
  "rate_limit_sleeps_of [RateLimitSleep m w] = [(m, w)]"
  "rate_limit_sleeps_of [Attempt tid] = []"
  "rate_limit_sleeps_of [Reinitialized] = []"
  by (simp_all add: rate_limit_sleeps_of_def)

lemma rate_limit_sleeps_of_await [simp]:
  "rate_limit_sleeps_of (trace (snd (await_point reqs s))) = rate_limit_sleeps_of (trace s)"
  by (simp add: await_point_def reinitialize_def split: list.splits option.splits)

lemma cli_attempt_429:
  assumes "err_code error = 429"
  shows "rate_limit_sleeps_of (trace (snd (cli_attempt tw j (Raised error, now_ms) cs))) =
           rate_limit_sleeps_of (trace cs) @
             [(cli_rate_limit_wait error now_ms, sleep (cli_rate_limit_wait error now_ms))]"
  using assms by (simp add: cli_attempt_def deleteTweet_def cli_event_def rate_limit_sleeps_of_def)

lemma srv_attempt_429:
  assumes "err_code error = 429"
  shows "rate_limit_sleeps_of
           (trace (snd (snd (srv_attempt tw i (Raised error, now_ms) reqs s)))) =
           rate_limit_sleeps_of (trace s) @
             [(srv_rate_limit_wait error now_ms, sleep (srv_rate_limit_wait error now_ms))]"
  using assms by (simp add: srv_attempt_def deleteTweet_def split_beta)

text \<open>
  C5 as the claim words it fails for a reset time that is not in the future. A 429 whose
  reset time lies 600 seconds before the clock reading: the claimed wait is
  \<open>ceil(-600 / 60)\<close> minutes plus the buffer, which is \<open>-9\<close> minutes with the
  buffer of the server and \<open>-5\<close> minutes with the buffer of the command line, and
  \<open>sleep\<close> is called with these arguments; its loop makes no turn, so the code waits
  \<open>0\<close> minutes before it goes on.
\<close>

theorem rate_limit_wait_past_reset:
  "rate_limit_sleeps_of (trace (snd (snd
      (srv_attempt \<lparr> tweet_id = ''1'', tweet_text = None, created_at = None \<rparr> 0
         (Raised \<lparr> err_code = 429, err_message = ''Too Many Requests'',
                   rate_reset = Some 1700000000 \<rparr>, 1700000600000) []
         \<lparr> trace = [], log_file = None, the_deleter = Some (new_TweetDeleter None None),
           deletionInProgress = True,
           deletionStats = \<lparr> deleted = 0, failed = 0, total = 1 \<rparr> \<rparr>)))) = [(Some (- 9), 0)] \<and>
   waitMinutes_spec 1700000000 (1700000600000 / 1000) 1 = - 9 \<and>
   rate_limit_sleeps_of (trace (snd
      (cli_attempt \<lparr> tweet_id = ''1'', tweet_text = None, created_at = None \<rparr> 0
         (Raised \<lparr> err_code = 429, err_message = ''Too Many Requests'',
                   rate_reset = Some 1700000000 \<rparr>, 1700000600000)
         \<lparr> trace = [], log_file = None, this = new_TweetDeleter None None,
           deletedCount = 0, failedCount = 0 \<rparr>))) = [(Some (- 5), 0)] \<and>
   waitMinutes_spec 1700000000 (1700000600000 / 1000) 5 = - 5"
  by code_simp

text \<open>
  C5, amended. After a 429 the handler calls \<open>sleep\<close> once. When the error carries a
  reset time that the test \<open>error.rateLimit?.reset\<close> accepts (so not \<open>0\<close>), that is
  a valid Date and that differs from the clock by less than \<open>2^53\<close> milliseconds, the
  argument is \<open>ceil((resetEpoch - now) / 60)\<close> minutes plus a buffer, five minutes on
  the command line and one minute in the server, and the code waits that many minutes
  when the argument is positive and not at all otherwise. When the reset time is beyond
  the range of Date, the argument is \<open>NaN\<close> and the code does not wait. When the
  error carries no reset time, or the reset time \<open>0\<close>, the code waits the fallback, 24
  hours on the command line and 15 minutes in the server.
\<close>

theorem rate_limit_wait_minutes:
  assumes "err_code error = 429"
  shows "(\<forall>reset. rate_reset error = Some reset \<and> reset \<noteq> 0 \<and>
            \<bar>reset * 1000\<bar> \<le> 8640000000000000 \<and> \<bar>reset * 1000 - now_ms\<bar> < 2 ^ 53 \<longrightarrow>
            rate_limit_sleeps_of (trace (snd (cli_attempt tw j (Raised error, now_ms) cs))) =
              rate_limit_sleeps_of (trace cs) @
                [(Some (waitMinutes_spec (of_int reset) (of_int now_ms / 1000) 5),
                  nat (waitMinutes_spec (of_int reset) (of_int now_ms / 1000) 5))] \<and>
            rate_limit_sleeps_of
              (trace (snd (snd (srv_attempt tw i (Raised error, now_ms) reqs s)))) =
              rate_limit_sleeps_of (trace s) @
                [(Some (waitMinutes_spec (of_int reset) (of_int now_ms / 1000) 1),
                  nat (waitMinutes_spec (of_int reset) (of_int now_ms / 1000) 1))]) \<and>
         (\<forall>reset. rate_reset error = Some reset \<and> 8640000000000000 < \<bar>reset * 1000\<bar> \<longrightarrow>
            rate_limit_sleeps_of (trace (snd (cli_attempt tw j (Raised error, now_ms) cs))) =
              rate_limit_sleeps_of (trace cs) @ [(None, 0)] \<and>
            rate_limit_sleeps_of
              (trace (snd (snd (srv_attempt tw i (Raised error, now_ms) reqs s)))) =
              rate_limit_sleeps_of (trace s) @ [(None, 0)]) \<and>
         (rate_reset error = None \<or> rate_reset error = Some 0 \<longrightarrow>
            rate_limit_sleeps_of (trace (snd (cli_attempt tw j (Raised error, now_ms) cs))) =
              rate_limit_sleeps_of (trace cs) @ [(Some (24 * 60), 24 * 60)] \<and>
            rate_limit_sleeps_of
              (trace (snd (snd (srv_attempt tw i (Raised error, now_ms) reqs s)))) =
              rate_limit_sleeps_of (trace s) @ [(Some 15, 15)])"
proof (intro conjI allI impI)
  fix reset
  assume h: "rate_reset error = Some reset \<and> reset \<noteq> 0 \<and>
            \<bar>reset * 1000\<bar> \<le> 8640000000000000 \<and> \<bar>reset * 1000 - now_ms\<bar> < 2 ^ 53"
  then have m: "minutesUntilReset reset now_ms =
      Some \<lceil>(rat_of_int reset - rat_of_int now_ms / 1000) / 60\<rceil>"
    by (intro minutesUntilReset_exact) simp_all
  from h m have
    "cli_rate_limit_wait error now_ms =
       Some (waitMinutes_spec (of_int reset) (of_int now_ms / 1000) 5)"
    "srv_rate_limit_wait error now_ms =
       Some (waitMinutes_spec (of_int reset) (of_int now_ms / 1000) 1)"
    by (simp_all add: cli_rate_limit_wait_def srv_rate_limit_wait_def waitMinutes_spec_def)
  then show
    "rate_limit_sleeps_of (trace (snd (cli_attempt tw j (Raised error, now_ms) cs))) =
       rate_limit_sleeps_of (trace cs) @
         [(Some (waitMinutes_spec (of_int reset) (of_int now_ms / 1000) 5),
           nat (waitMinutes_spec (of_int reset) (of_int now_ms / 1000) 5))]"
    "rate_limit_sleeps_of
       (trace (snd (snd (srv_attempt tw i (Raised error, now_ms) reqs s)))) =
       rate_limit_sleeps_of (trace s) @
         [(Some (waitMinutes_spec (of_int reset) (of_int now_ms / 1000) 1),
           nat (waitMinutes_spec (of_int reset) (of_int now_ms / 1000) 1))]"
    using assms by (simp_all add: cli_attempt_429 srv_attempt_429 sleep_minutes)
next
  fix reset
  assume h: "rate_reset error = Some reset \<and> 8640000000000000 < \<bar>reset * 1000\<bar>"
  then have "reset \<noteq> 0" by auto
  with h have
    "cli_rate_limit_wait error now_ms = None" "srv_rate_limit_wait error now_ms = None"
    by (simp_all add: cli_rate_limit_wait_def srv_rate_limit_wait_def
          minutesUntilReset_invalid_date)
  then show
    "rate_limit_sleeps_of (trace (snd (cli_attempt tw j (Raised error, now_ms) cs))) =
       rate_limit_sleeps_of (trace cs) @ [(None, 0)]"
    "rate_limit_sleeps_of
       (trace (snd (snd (srv_attempt tw i (Raised error, now_ms) reqs s)))) =
       rate_limit_sleeps_of (trace s) @ [(None, 0)]"
    using assms by (simp_all add: cli_attempt_429 srv_attempt_429 sleep_NaN)
next
  assume "rate_reset error = None \<or> rate_reset error = Some 0"
  then have
    "cli_rate_limit_wait error now_ms = Some (24 * 60)"
    "srv_rate_limit_wait error now_ms = Some 15"
    by (auto simp: cli_rate_limit_wait_def srv_rate_limit_wait_def)
  then show
    "rate_limit_sleeps_of (trace (snd (cli_attempt tw j (Raised error, now_ms) cs))) =
       rate_limit_sleeps_of (trace cs) @ [(Some (24 * 60), 24 * 60)]"
    "rate_limit_sleeps_of
       (trace (snd (snd (srv_attempt tw i (Raised error, now_ms) reqs s)))) =
       rate_limit_sleeps_of (trace s) @ [(Some 15, 15)]"
    using assms by (simp_all add: cli_attempt_429 srv_attempt_429 sleep_minutes)
qed

theorem rate_limit_wait_minutes_witness:
  "rate_limit_sleeps_of (trace (snd (snd
      (srv_attempt \<lparr> tweet_id = ''1'', tweet_text = None, created_at = None \<rparr> 0
         (Raised \<lparr> err_code = 429, err_message = ''Too Many Requests'',
                   rate_reset = Some 1700000600 \<rparr>, 1700000000000) [True]
         \<lparr> trace = [], log_file = None, the_deleter = Some (new_TweetDeleter None None),
           deletionInProgress = True,
           deletionStats = \<lparr> deleted = 0, failed = 0, total = 1 \<rparr> \<rparr>)))) = [(Some 11, 11)] \<and>
   rate_limit_sleeps_of (trace (snd
      (cli_attempt \<lparr> tweet_id = ''1'', tweet_text = None, created_at = None \<rparr> 0
         (Raised \<lparr> err_code = 429, err_message = ''Too Many Requests'',
                   rate_reset = Some 1700000600 \<rparr>, 1700000000000)
         \<lparr> trace = [], log_file = None, this = new_TweetDeleter None None,
           deletedCount = 0, failedCount = 0 \<rparr>))) = [(Some 15, 15)] \<and>
   rate_limit_sleeps_of (trace (snd (snd
      (srv_attempt \<lparr> tweet_id = ''1'', tweet_text = None, created_at = None \<rparr> 0
         (Raised \<lparr> err_code = 429, err_message = ''Too Many Requests'',
                   rate_reset = None \<rparr>, 1700000000000) []
         \<lparr> trace = [], log_file = None, the_deleter = Some (new_TweetDeleter None None),
           deletionInProgress = True,
           deletionStats = \<lparr> deleted = 0, failed = 0, total = 1 \<rparr> \<rparr>)))) = [(Some 15, 15)] \<and>
   rate_limit_sleeps_of (trace (snd
      (cli_attempt \<lparr> tweet_id = ''1'', tweet_text = None, created_at = None \<rparr> 0
         (Raised \<lparr> err_code = 429, err_message = ''Too Many Requests'',
                   rate_reset = None \<rparr>, 1700000000000)
         \<lparr> trace = [], log_file = None, this = new_TweetDeleter None None,
           deletedCount = 0, failedCount = 0 \<rparr>))) = [(Some 1440, 1440)]"
  using
    rate_limit_wait_minutes [of "\<lparr> err_code = 429, err_message = ''Too Many Requests'',
        rate_reset = Some 1700000600 \<rparr>" 1700000000000
      "\<lparr> tweet_id = ''1'', tweet_text = None, created_at = None \<rparr>" 0
      "\<lparr> trace = [], log_file = None, this = new_TweetDeleter None None,
            deletedCount = 0, failedCount = 0 \<rparr>"
      0 "[True]"
      "\<lparr> trace = [], log_file = None, the_deleter = Some (new_TweetDeleter None None),
            deletionInProgress = True,
            deletionStats = \<lparr> deleted = 0, failed = 0, total = 1 \<rparr> \<rparr>"]
    rate_limit_wait_minutes [of "\<lparr> err_code = 429, err_message = ''Too Many Requests'',
        rate_reset = None \<rparr>" 1700000000000
      "\<lparr> tweet_id = ''1'', tweet_text = None, created_at = None \<rparr>" 0
      "\<lparr> trace = [], log_file = None, this = new_TweetDeleter None None,
            deletedCount = 0, failedCount = 0 \<rparr>"
      0 "[]"
      "\<lparr> trace = [], log_file = None, the_deleter = Some (new_TweetDeleter None None),
            deletionInProgress = True,
            deletionStats = \<lparr> deleted = 0, failed = 0, total = 1 \<rparr> \<rparr>"]
  by (simp add: waitMinutes_spec_def)

section \<open>\<open>fetchUserTweets\<close>: the cap and the filter\<close>

lemma slice_from_zero: "0 \<le> n \<Longrightarrow> slice xs 0 n = take (nat n) xs"
  by (simp add: slice_def Let_def min_def)

lemma filter_original_Some:
  "filter_original ts = Some r \<Longrightarrow> r = filter original_post ts \<and> (\<forall>t \<in> set ts. tweet_text t \<noteq> None)"
  by (induction ts arbitrary: r)
     (auto simp: original_post_def is_original_def split: option.splits if_splits)

lemma filter_original_defined:
  "\<forall>t \<in> set ts. tweet_text t \<noteq> None \<Longrightarrow> filter_original ts = Some (filter original_post ts)"
  by (induction ts) (auto simp: original_post_def is_original_def split: option.splits)

lemma new_TweetDeleter_cap: "maxDeletionsPerDay (new_TweetDeleter env_batch env_delay) = 15"
  by (simp add: new_TweetDeleter_def)

text \<open>
  C9. With the cap of 15 that the constructor sets, \<open>fetchUserTweets\<close> returns at most
  15 posts, none of whose text starts with \<open>@\<close> or with \<open>RT @\<close>; and when the listing
  succeeds (a page of posts that all have a text) the result is the first 15 of the posts
  that pass the filter, so the filter comes before the cap.
\<close>

theorem fetchUserTweets_capped_and_filtered:
  assumes cap: "maxDeletionsPerDay dl = 15"
  shows "length (fetchUserTweets dl maxResults userTimeline) \<le> 15 \<and>
         (\<forall>t \<in> set (fetchUserTweets dl maxResults userTimeline). \<forall>txt. tweet_text t = Some txt \<longrightarrow>
              \<not> startsWith txt ''@'' \<and> \<not> startsWith txt ''RT @'') \<and>
         (\<forall>ts. userTimeline (freetierMaxResults maxResults) = Timeline (Some ts) \<and> (\<forall>t \<in> set ts. tweet_text t \<noteq> None) \<longrightarrow>
              fetchUserTweets dl maxResults userTimeline = take 15 (filter original_post ts))"
proof -
  have shape: "fetchUserTweets dl maxResults userTimeline = [] \<or>
      (\<exists>ts. fetchUserTweets dl maxResults userTimeline = take 15 (filter original_post ts))"
    using cap
    by (auto simp: fetchUserTweets_def Let_def slice_from_zero
             split: timeline_outcome.splits option.splits dest: filter_original_Some)
  have len: "length (fetchUserTweets dl maxResults userTimeline) \<le> 15"
    using shape by auto
  have orig: "\<forall>t \<in> set (fetchUserTweets dl maxResults userTimeline). \<forall>txt. tweet_text t = Some txt \<longrightarrow>
              \<not> startsWith txt ''@'' \<and> \<not> startsWith txt ''RT @''"
    using shape by (auto simp: original_post_def dest!: in_set_takeD)
  have ok: "\<forall>ts. userTimeline (freetierMaxResults maxResults) = Timeline (Some ts) \<and> (\<forall>t \<in> set ts. tweet_text t \<noteq> None) \<longrightarrow>
              fetchUserTweets dl maxResults userTimeline = take 15 (filter original_post ts)"
    using cap by (auto simp: fetchUserTweets_def Let_def slice_from_zero filter_original_defined)
  from len orig ok show ?thesis by blast
qed

theorem fetchUserTweets_capped_and_filtered_witness:
  "maxDeletionsPerDay (new_TweetDeleter None None) = 15 \<and>
   fetchUserTweets (new_TweetDeleter None None) 100
     (\<lambda>n. Timeline (Some [\<lparr> tweet_id = ''1'', tweet_text = Some ''@bob hi'', created_at = None \<rparr>,
                      \<lparr> tweet_id = ''2'', tweet_text = Some ''hello'', created_at = None \<rparr>,
                      \<lparr> tweet_id = ''3'', tweet_text = Some ''RT @ann: hi'', created_at = None \<rparr>]))
   = [\<lparr> tweet_id = ''2'', tweet_text = Some ''hello'', created_at = None \<rparr>]"
  using fetchUserTweets_capped_and_filtered [of "new_TweetDeleter None None" 100
      "\<lambda>n. Timeline (Some [\<lparr> tweet_id = ''1'', tweet_text = Some ''@bob hi'', created_at = None \<rparr>,
                      \<lparr> tweet_id = ''2'', tweet_text = Some ''hello'', created_at = None \<rparr>,
                      \<lparr> tweet_id = ''3'', tweet_text = Some ''RT @ann: hi'', created_at = None \<rparr>])"]
  by (simp add: new_TweetDeleter_def original_post_def startsWith_def)

section \<open>The partition into chunks\<close>

lemma chunks_spec_Nil [simp]: "chunks_spec B [] = []"
  by (simp add: chunks_spec.simps)

lemma chunks_spec_step:
  "0 < B \<Longrightarrow> xs \<noteq> [] \<Longrightarrow> chunks_spec B xs = take B xs # chunks_spec B (drop B xs)"
  by (subst chunks_spec.simps) simp

lemma chunks_spec_empty_iff: "0 < B \<Longrightarrow> chunks_spec B xs = [] \<longleftrightarrow> xs = []"
  by (subst chunks_spec.simps) simp

lemma concat_chunks_spec: "0 < B \<Longrightarrow> concat (chunks_spec B xs) = xs"
proof (induction B xs rule: chunks_spec.induct)
  case (1 B xs)
  show ?case
  proof (cases "xs = []")
    case True
    then show ?thesis by simp
  next
    case False
    with 1 show ?thesis by (simp add: chunks_spec_step)
  qed
qed

lemma length_chunks_spec: "0 < B \<Longrightarrow> length (chunks_spec B xs) = (length xs + B - 1) div B"
proof (induction B xs rule: chunks_spec.induct)
  case (1 B xs)
  show ?case
  proof (cases "xs = []")
    case True
    with 1 show ?thesis by simp
  next
    case False
    then have pos: "0 < length xs" by simp
    from 1 False have "length (chunks_spec B xs) = Suc ((length xs - B + B - 1) div B)"
      by (simp add: chunks_spec_step)
    also have "\<dots> = (length xs + B - 1) div B"
    proof -
      have e: "length xs + B - 1 = (length xs - 1) + B" using pos by arith
      have "((length xs - 1) + B) div B = Suc ((length xs - 1) div B)"
        using div_add_self2 [of B "length xs - 1"] \<open>0 < B\<close> by simp
      then have key: "(length xs + B - 1) div B = Suc ((length xs - 1) div B)"
        by (simp only: e)
      show ?thesis
      proof (cases "B \<le> length xs")
        case True
        with key show ?thesis by simp
      next
        case False
        then have "(length xs - 1) div B = 0" "(length xs - B + B - 1) div B = 0"
          using \<open>0 < B\<close> by simp_all
        with key show ?thesis by simp
      qed
    qed
    finally show ?thesis .
  qed
qed

lemma chunk_sizes:
  "0 < B \<Longrightarrow> k < length (chunks_spec B xs) \<Longrightarrow>
   length (chunks_spec B xs ! k) =
     (if Suc k < length (chunks_spec B xs) then B
      else if length xs mod B = 0 then B else length xs mod B)"
proof (induction B xs arbitrary: k rule: chunks_spec.induct)
  case (1 B xs)
  from "1.prems" have ne: "xs \<noteq> []" by auto
  note step = chunks_spec_step [OF \<open>0 < B\<close> ne]
  show ?case
  proof (cases k)
    case 0
    show ?thesis
    proof (cases "drop B xs = []")
      case True
      then have le: "length xs \<le> B" by simp
      from ne have "0 < length xs" by simp
      with le have "(if length xs mod B = 0 then B else length xs mod B) = length xs"
        by (cases "length xs = B") auto
      with 0 step True le show ?thesis by simp
    next
      case False
      then have "B < length xs" by simp
      with 0 step False \<open>0 < B\<close> show ?thesis by (simp add: chunks_spec_empty_iff)
    qed
  next
    case (Suc j)
    with "1.prems" step have j: "j < length (chunks_spec B (drop B xs))" by simp
    then have "drop B xs \<noteq> []" by auto
    then have "B \<le> length xs" by simp
    then have "(length xs - B) mod B = length xs mod B" by (simp add: le_mod_geq)
    with "1.IH" [OF _ \<open>0 < B\<close> j] ne \<open>0 < B\<close> Suc step show ?thesis by simp
  qed
qed

lemma slice_take_drop:
  "0 \<le> i \<Longrightarrow> 0 < B \<Longrightarrow> slice xs i (i + B) = take (nat B) (drop (nat i) xs)"
proof (cases "i < int (length xs)")
  case False
  assume "0 \<le> i" "0 < B"
  with False show ?thesis by (simp add: slice_def Let_def)
next
  case True
  assume i: "0 \<le> i" and B: "0 < B"
  have "nat (min (i + B) (int (length xs)) - i) = min (nat B) (length xs - nat i)"
    using i B True by linarith
  moreover have "take (min (nat B) (length xs - nat i)) (drop (nat i) xs) =
      take (nat B) (drop (nat i) xs)"
    by (simp add: min_def)
  ultimately show ?thesis using i B True by (simp add: slice_def Let_def)
qed

section \<open>The batch loop of the command line\<close>

lemma cli_frame_refl: "cli_frame s s"
  by (simp add: cli_frame_def)

lemma cli_frame_trans: "cli_frame s s1 \<Longrightarrow> cli_frame s1 s2 \<Longrightarrow> cli_frame s s2"
  by (simp add: cli_frame_def)

lemma cli_attempt_frame: "cli_attempt tw j r s = (j', s') \<Longrightarrow> cli_frame s s'"
  by (auto simp: cli_attempt_def Let_def cli_event_def cli_frame_def batches_of_def
                 batch_sleeps_of_def
           split: sum.splits if_splits)

lemma cli_items_frame: "cli_items batch j rs s = (s', ro) \<Longrightarrow> cli_frame s s'"
proof (induction batch j rs s rule: cli_items.induct)
  case (1 batch j s)
  then show ?case by (auto simp: cli_frame_refl split: if_splits)
next
  case (2 batch j r rs s)
  show ?case
  proof (cases "j < int (length batch)")
    case False
    with 2 show ?thesis by (simp add: cli_frame_refl)
  next
    case True
    obtain j1 s1 where a: "cli_attempt (batch ! nat j) j r s = (j1, s1)"
      by (cases "cli_attempt (batch ! nat j) j r s")
    with 2 True have "cli_items batch (j1 + 1) rs s1 = (s', ro)" by simp
    from "2.IH" [OF True a [symmetric] this] cli_attempt_frame [OF a]
    show ?thesis by (rule cli_frame_trans [rotated])
  qed
qed

lemma cli_batches_chunks:
  assumes "0 < B" and "0 \<le> i" and "tweetsPerBatch (this s) = B"
    and "batchDelayMinutes (this s) = D"
    and "cli_batches fuel tweets i rs s = Returned s'"
  shows "batches_of (trace s') =
           batches_of (trace s) @
             map (map tweet_id) (chunks_spec (nat B) (drop (nat i) tweets)) \<and>
         batch_sleeps_of (trace s') =
           batch_sleeps_of (trace s) @
             replicate (length (chunks_spec (nat B) (drop (nat i) tweets)) - 1) D"
  using assms
proof (induction fuel arbitrary: i rs s)
  case 0
  then show ?case by simp
next
  case (Suc fuel)
  show ?case
  proof (cases "i < int (length tweets)")
    case False
    with Suc.prems show ?thesis by simp
  next
    case True
    let ?batch = "slice tweets i (i + B)"
    let ?s0 = "cli_event (Batch (map tweet_id ?batch)) s"
    obtain s1 ro where items: "cli_items ?batch 0 rs ?s0 = (s1, ro)"
      by (cases "cli_items ?batch 0 rs ?s0")
    from cli_items_frame [OF items] Suc.prems
    have f: "tweetsPerBatch (this s1) = B" "batchDelayMinutes (this s1) = D"
      "batches_of (trace s1) = batches_of (trace s) @ [map tweet_id ?batch]"
      "batch_sleeps_of (trace s1) = batch_sleeps_of (trace s)"
      by (simp_all add: cli_frame_def cli_event_def batches_of_def batch_sleeps_of_def)
    from Suc.prems True items obtain rs' where ro: "ro = Some rs'"
      by (cases ro) (simp_all add: Let_def)
    let ?s2 = "if i + B < int (length tweets) then cli_event (BatchSleep D (sleep (Some D))) s1 else s1"
    from Suc.prems True items ro f
    have rec: "cli_batches fuel tweets (i + B) rs' ?s2 = Returned s'"
      by (auto simp: Let_def split: if_splits)
    have f2: "tweetsPerBatch (this ?s2) = B" "batchDelayMinutes (this ?s2) = D"
      "batches_of (trace ?s2) = batches_of (trace s) @ [map tweet_id ?batch]"
      "batch_sleeps_of (trace ?s2) = batch_sleeps_of (trace s) @
          (if i + B < int (length tweets) then [D] else [])"
      using f by (simp_all add: cli_event_def batches_of_def batch_sleeps_of_def)
    from Suc.prems have iB: "0 \<le> i + B" by simp
    note IH = Suc.IH [OF \<open>0 < B\<close> iB f2(1) f2(2) rec]
    from True \<open>0 \<le> i\<close> have ne: "drop (nat i) tweets \<noteq> []" by simp
    have B: "0 < nat B" using \<open>0 < B\<close> by simp
    have dr: "drop (nat (i + B)) tweets = drop (nat B) (drop (nat i) tweets)"
      using \<open>0 \<le> i\<close> \<open>0 < B\<close> by (simp add: nat_add_distrib add.commute)
    have more: "i + B < int (length tweets) \<longleftrightarrow> chunks_spec (nat B) (drop (nat (i + B)) tweets) \<noteq> []"
      using iB by (simp add: chunks_spec_empty_iff [OF B]) linarith
    have st: "chunks_spec (nat B) (drop (nat i) tweets) =
        ?batch # chunks_spec (nat B) (drop (nat (i + B)) tweets)"
      by (simp only: chunks_spec_step [OF B ne] slice_take_drop [OF \<open>0 \<le> i\<close> \<open>0 < B\<close>] dr)
    show ?thesis
    proof (cases "i + B < int (length tweets)")
      case True
      with more obtain c cs where "chunks_spec (nat B) (drop (nat (i + B)) tweets) = c # cs"
        by (cases "chunks_spec (nat B) (drop (nat (i + B)) tweets)") auto
      with IH f2 st True show ?thesis by simp
    next
      case False
      with more have "chunks_spec (nat B) (drop (nat (i + B)) tweets) = []" by simp
      with IH f2 st False show ?thesis by simp
    qed
  qed
qed

lemma cli_run_chunks:
  assumes "0 < tweetsPerBatch (this s)"
    and "deleteTweetsInBatches fuel tweets rs s = Returned s'"
  shows "batches_of (trace s') =
           batches_of (trace s) @
             map (map tweet_id) (chunks_spec (nat (tweetsPerBatch (this s))) tweets)"
    and "batch_sleeps_of (trace s') =
           batch_sleeps_of (trace s) @
             replicate (length (chunks_spec (nat (tweetsPerBatch (this s))) tweets) - 1)
               (batchDelayMinutes (this s))"
  using cli_batches_chunks [of "tweetsPerBatch (this s)" 0
      "s\<lparr> deletedCount := 0, failedCount := 0 \<rparr>" "batchDelayMinutes (this s)"
      fuel tweets rs s'] assms
  by (simp_all add: deleteTweetsInBatches_def)

lemma cli_items_retries_same_tweet:
  assumes "0 \<le> j" and "j < int (length batch)" and "err_code error = 429"
  shows "cli_items batch j ((Raised error, now_ms) # rs) s =
           cli_items batch j rs
             (cli_event (RateLimitSleep (cli_rate_limit_wait error now_ms)
                            (sleep (cli_rate_limit_wait error now_ms)))
                (cli_event (Attempt (tweet_id (batch ! nat j))) s))"
  using assms by (simp add: cli_attempt_def deleteTweet_def Let_def)

lemma cli_throttle_not_counted:
  assumes "err_code error = 429" and "cli_attempt tw j (Raised error, now_ms) s = (j', s')"
  shows "j' + 1 = j \<and> deletedCount s' = deletedCount s \<and> failedCount s' = failedCount s \<and>
         deletedTweets (this s') = deletedTweets (this s)"
  using assms by (auto simp: cli_attempt_def deleteTweet_def Let_def cli_event_def)

section \<open>The batch loop of the server when no reply is a 429\<close>

lemma batches_of_append [simp]: "batches_of (tr @ tr') = batches_of tr @ batches_of tr'"
  by (simp add: batches_of_def)

lemma batch_sleeps_of_append [simp]:
  "batch_sleeps_of (tr @ tr') = batch_sleeps_of tr @ batch_sleeps_of tr'"
  by (simp add: batch_sleeps_of_def)

lemma batches_of_Cons [simp]:
  "batches_of [] = []"
  "batches_of (Batch ids # tr) = ids # batches_of tr"
  "batches_of (Attempt tid # tr) = batches_of tr"
  "batches_of (Deleted tid t # tr) = batches_of tr"
  "batches_of (Failed tid # tr) = batches_of tr"
  "batches_of (ItemPause ms # tr) = batches_of tr"
  "batches_of (RateLimitSleep m w # tr) = batches_of tr"
  "batches_of (BatchSleep D w # tr) = batches_of tr"
  "batches_of (LogSaved # tr) = batches_of tr"
  "batches_of (Reinitialized # tr) = batches_of tr"
  by (simp_all add: batches_of_def)

lemma batch_sleeps_of_Cons [simp]:
  "batch_sleeps_of [] = []"
  "batch_sleeps_of (Batch ids # tr) = batch_sleeps_of tr"
  "batch_sleeps_of (Attempt tid # tr) = batch_sleeps_of tr"
  "batch_sleeps_of (Deleted tid t # tr) = batch_sleeps_of tr"
  "batch_sleeps_of (Failed tid # tr) = batch_sleeps_of tr"
  "batch_sleeps_of (ItemPause ms # tr) = batch_sleeps_of tr"
  "batch_sleeps_of (RateLimitSleep m w # tr) = batch_sleeps_of tr"
  "batch_sleeps_of (BatchSleep D w # tr) = D # batch_sleeps_of tr"
  "batch_sleeps_of (LogSaved # tr) = batch_sleeps_of tr"
  "batch_sleeps_of (Reinitialized # tr) = batch_sleeps_of tr"
  by (simp_all add: batch_sleeps_of_def)

lemma count_trace [simp]:
  "trace (count_deleted s) = trace s"
  "trace (count_failed s) = trace s"
  "trace (push_deleted e s) = trace s"
  by (simp_all add: count_deleted_def count_failed_def push_deleted_def)

lemma await_point_batches [simp]:
  "batches_of (trace (snd (await_point reqs s))) = batches_of (trace s)"
  "batch_sleeps_of (trace (snd (await_point reqs s))) = batch_sleeps_of (trace s)"
  by (simp_all add: await_point_def reinitialize_def split: list.splits option.splits)

lemma srv_attempt_frame:
  "srv_attempt tw i r reqs s = (i', reqs', s') \<Longrightarrow> srv_frame s s'"
  by (auto simp: srv_attempt_def srv_frame_def split_beta prod_eq_iff
           split: sum.splits if_splits)

lemma srv_attempt_not_throttled:
  "\<not> throttled r \<Longrightarrow> srv_attempt tw i r reqs s = (i', reqs', s') \<Longrightarrow> i' = i"
  by (auto simp: srv_attempt_def throttled_def deleteTweet_def split_beta prod_eq_iff
           split: sum.splits if_splits api_outcome.splits)

lemma srv_items_frame:
  "srv_items batch i rs reqs s = ((i', reqs', s'), ro) \<Longrightarrow> srv_frame s s'"
proof (induction batch i rs reqs s rule: srv_items.induct)
  case (1 i rs reqs s)
  then show ?case by (simp add: srv_frame_def)
next
  case (2 tw batch i rs reqs s)
  show ?case
  proof (cases "the_deleter s")
    case None
    let ?s1 = "srv_event (Failed (tweet_id tw)) (count_failed s)"
    from 2 None have "srv_items batch i rs reqs ?s1 = ((i', reqs', s'), ro)" by simp
    from "2.IH"(1) [OF None this] show ?thesis by (simp add: srv_frame_def)
  next
    case (Some d)
    show ?thesis
    proof (cases rs)
      case Nil
      with 2 Some show ?thesis by (simp add: srv_frame_def)
    next
      case (Cons r rs1)
      obtain i1 reqs1 s1 where a: "srv_attempt tw i r reqs s = (i1, reqs1, s1)"
        by (metis prod.exhaust)
      with 2 Some Cons have rest: "srv_items batch i1 rs1 reqs1 s1 = ((i', reqs', s'), ro)"
        by simp
      from "2.IH"(2) [OF Some Cons a [symmetric] refl rest] srv_attempt_frame [OF a]
      show ?thesis by (simp add: srv_frame_def)
    qed
  qed
qed

lemma srv_items_not_throttled:
  "\<forall>r \<in> set rs. \<not> throttled r \<Longrightarrow>
   srv_items batch i rs reqs s = ((i', reqs', s'), Some rs') \<Longrightarrow>
   i' = i \<and> (\<forall>r \<in> set rs'. \<not> throttled r)"
proof (induction batch i rs reqs s rule: srv_items.induct)
  case (1 i rs reqs s)
  then show ?case by simp
next
  case (2 tw batch i rs reqs s)
  show ?case
  proof (cases "the_deleter s")
    case None
    let ?s1 = "srv_event (Failed (tweet_id tw)) (count_failed s)"
    from 2 None have "srv_items batch i rs reqs ?s1 = ((i', reqs', s'), Some rs')" by simp
    from "2.IH"(1) [OF None "2.prems"(1) this] show ?thesis .
  next
    case (Some d)
    show ?thesis
    proof (cases rs)
      case Nil
      with 2 Some show ?thesis by simp
    next
      case (Cons r rs1)
      obtain i1 reqs1 s1 where a: "srv_attempt tw i r reqs s = (i1, reqs1, s1)"
        by (metis prod.exhaust)
      with 2 Some Cons
      have rest: "srv_items batch i1 rs1 reqs1 s1 = ((i', reqs', s'), Some rs')"
        by simp
      from "2.prems" Cons have q: "\<not> throttled r" "\<forall>r \<in> set rs1. \<not> throttled r" by simp_all
      from "2.IH"(2) [OF Some Cons a [symmetric] refl q(2) rest]
        srv_attempt_not_throttled [OF q(1) a]
      show ?thesis by simp
    qed
  qed
qed

text \<open>The end of a turn of the batch loop with a deleter in place.\<close>

lemma srv_batch_end_conf:
  assumes "srv_conf s = Some (B, D)"
  shows "srv_batch_end tweets i reqs s =
           Some (i + B,
                 if i + B < int (length tweets)
                 then await_point reqs (srv_event (BatchSleep D (sleep (Some D))) s)
                 else (reqs, s))"
proof -
  from srv_batch_end_Some [OF assms, of tweets i reqs]
  obtain reqs' s' where e: "srv_batch_end tweets i reqs s = Some (i + B, reqs', s')"
    by blast
  from assms obtain d where d: "the_deleter s = Some d" "tweetsPerBatch d = B"
    "batchDelayMinutes d = D"
    by (auto simp: srv_conf_def)
  from e d show ?thesis
    by (auto simp: srv_batch_end_def split: option.splits prod.splits if_splits)
qed

lemma srv_batches_chunks:
  assumes "0 < B" and "0 \<le> i" and "\<forall>r \<in> set rs. \<not> throttled r"
    and "srv_conf s = Some (B, D)"
    and "srv_batches fuel tweets i rs reqs s = Returned (reqs', s')"
  shows "batches_of (trace s') =
           batches_of (trace s) @
             map (map tweet_id) (chunks_spec (nat B) (drop (nat i) tweets)) \<and>
         batch_sleeps_of (trace s') =
           batch_sleeps_of (trace s) @
             replicate (length (chunks_spec (nat B) (drop (nat i) tweets)) - 1) D"
  using assms
proof (induction fuel arbitrary: i rs reqs s)
  case 0
  then show ?case by simp
next
  case (Suc fuel)
  show ?case
  proof (cases "i < int (length tweets)")
    case False
    with Suc.prems show ?thesis by simp
  next
    case True
    from Suc.prems(4) obtain d where d: "the_deleter s = Some d" "tweetsPerBatch d = B"
      by (auto simp: srv_conf_def)
    let ?batch = "slice tweets i (i + B)"
    let ?s0 = "srv_event (Batch (map tweet_id ?batch)) s"
    obtain i1 reqs1 s1 ro where
      items: "srv_items ?batch i rs reqs ?s0 = ((i1, reqs1, s1), ro)"
      by (metis prod.exhaust)
    from srv_items_frame [OF items] Suc.prems(4)
    have f: "srv_conf s1 = Some (B, D)"
      "batches_of (trace s1) = batches_of (trace s) @ [map tweet_id ?batch]"
      "batch_sleeps_of (trace s1) = batch_sleeps_of (trace s)"
      by (simp_all add: srv_frame_def)
    from Suc.prems True items d obtain rs' where ro: "ro = Some rs'"
      by (cases ro) (simp_all add: Let_def)
    from srv_items_not_throttled [OF Suc.prems(3) items [unfolded ro]]
    have i1: "i1 = i" and quiet: "\<forall>r \<in> set rs'. \<not> throttled r" by simp_all
    let ?p = "if i + B < int (length tweets)
              then await_point reqs1 (srv_event (BatchSleep D (sleep (Some D))) s1)
              else (reqs1, s1)"
    from Suc.prems True items ro i1 d srv_batch_end_conf [OF f(1), of tweets i reqs1]
    have rec: "srv_batches fuel tweets (i + B) rs' (fst ?p) (snd ?p) = Returned (reqs', s')"
      by (simp add: Let_def split_beta split: if_splits)
    have f2: "srv_conf (snd ?p) = Some (B, D)"
      "batches_of (trace (snd ?p)) = batches_of (trace s) @ [map tweet_id ?batch]"
      "batch_sleeps_of (trace (snd ?p)) = batch_sleeps_of (trace s) @
          (if i + B < int (length tweets) then [D] else [])"
      using f by simp_all
    from Suc.prems have iB: "0 \<le> i + B" by simp
    note IH = Suc.IH [OF \<open>0 < B\<close> iB quiet f2(1) rec]
    from True \<open>0 \<le> i\<close> have ne: "drop (nat i) tweets \<noteq> []" by simp
    have B: "0 < nat B" using \<open>0 < B\<close> by simp
    have dr: "drop (nat (i + B)) tweets = drop (nat B) (drop (nat i) tweets)"
      using \<open>0 \<le> i\<close> \<open>0 < B\<close> by (simp add: nat_add_distrib add.commute)
    have more: "i + B < int (length tweets) \<longleftrightarrow>
        chunks_spec (nat B) (drop (nat (i + B)) tweets) \<noteq> []"
      using iB by (simp add: chunks_spec_empty_iff [OF B]) linarith
    have st: "chunks_spec (nat B) (drop (nat i) tweets) =
        ?batch # chunks_spec (nat B) (drop (nat (i + B)) tweets)"
      by (simp only: chunks_spec_step [OF B ne] slice_take_drop [OF \<open>0 \<le> i\<close> \<open>0 < B\<close>] dr)
    show ?thesis
    proof (cases "i + B < int (length tweets)")
      case True
      with more obtain c cs where "chunks_spec (nat B) (drop (nat (i + B)) tweets) = c # cs"
        by (cases "chunks_spec (nat B) (drop (nat (i + B)) tweets)") auto
      with IH f2 st True show ?thesis by simp
    next
      case False
      with more have "chunks_spec (nat B) (drop (nat (i + B)) tweets) = []" by simp
      with IH f2 st False show ?thesis by simp
    qed
  qed
qed

lemma chunks_spec_map: "map (map f) (chunks_spec B xs) = chunks_spec B (map f xs)"
proof (induction B xs rule: chunks_spec.induct)
  case (1 B xs)
  show ?case
  proof (cases "B = 0 \<or> xs = []")
    case True
    then show ?thesis by (auto simp: chunks_spec.simps [of B] )
  next
    case False
    then have s: "chunks_spec B xs = take B xs # chunks_spec B (drop B xs)"
      "chunks_spec B (map f xs) = take B (map f xs) # chunks_spec B (drop B (map f xs))"
      by (simp_all add: chunks_spec_step)
    from "1.IH" [OF False] show ?thesis
      by (simp only: s list.map take_map drop_map)
  qed
qed

text \<open>With a deleter in place the batch loop never meets a missing deleter.\<close>

lemma srv_batches_not_Threw:
  "the_deleter s \<noteq> None \<Longrightarrow> srv_batches fuel tweets i rs reqs s \<noteq> Threw x"
proof (induction fuel arbitrary: i rs reqs s)
  case 0
  then show ?case by simp
next
  case (Suc fuel)
  show ?case
  proof (cases "i < int (length tweets)")
    case False
    then show ?thesis by simp
  next
    case True
    from Suc.prems obtain d where d: "the_deleter s = Some d" by blast
    let ?batch = "slice tweets i (i + tweetsPerBatch d)"
    let ?s0 = "srv_event (Batch (map tweet_id ?batch)) s"
    obtain i1 reqs1 s1 ro where
      items: "srv_items ?batch i rs reqs ?s0 = ((i1, reqs1, s1), ro)"
      by (metis prod.exhaust)
    from srv_items_count [OF items] d
    obtain B D where c1: "srv_conf s1 = Some (B, D)"
      by (auto simp: srv_conf_def)
    show ?thesis
    proof (cases ro)
      case None
      with True d items show ?thesis by (simp add: Let_def)
    next
      case (Some rs')
      from srv_batch_end_Some [OF c1, of tweets i1 reqs1]
      obtain reqs2 s2 where e: "srv_batch_end tweets i1 reqs1 s1 = Some (i1 + B, reqs2, s2)"
        and s2: "srv_conf s2 = Some (B, D)"
        by blast
      from s2 have "the_deleter s2 \<noteq> None" by (auto simp: srv_conf_def)
      from Suc.IH [OF this, of "i1 + B" rs' reqs2] True d items Some e
      show ?thesis by (simp add: Let_def)
    qed
  qed
qed

lemma srv_run_chunks:
  assumes "the_deleter s = Some d" and "0 < tweetsPerBatch d"
    and "\<forall>r \<in> set rs. \<not> throttled r"
    and "processDeletion fuel tweetIds rs reqs write_ok s = Returned s'"
  shows "batches_of (trace s') =
           batches_of (trace s) @ chunks_spec (nat (tweetsPerBatch d)) tweetIds"
    and "batch_sleeps_of (trace s') =
           batch_sleeps_of (trace s) @
             replicate (length (chunks_spec (nat (tweetsPerBatch d)) tweetIds) - 1)
               (batchDelayMinutes d)"
proof -
  let ?tweets = "map (\<lambda>tid. \<lparr> tweet_id = tid, tweet_text = None, created_at = None \<rparr>) tweetIds"
  let ?r = "srv_batches fuel ?tweets 0 rs reqs s"
  from assms(1) have nt: "\<And>x. ?r \<noteq> Threw x" by (intro srv_batches_not_Threw) simp
  from assms(4) nt obtain reqs1 s1 where r: "?r = Returned (reqs1, s1)"
    and tr: "batches_of (trace s') = batches_of (trace s1)"
      "batch_sleeps_of (trace s') = batch_sleeps_of (trace s1)"
    by (cases ?r)
       (auto simp: processDeletion_def Let_def srv_saveDeletionLog_def split_beta
             split: option.splits if_splits)
  have ids: "map (map tweet_id) (chunks_spec (nat (tweetsPerBatch d)) ?tweets) =
      chunks_spec (nat (tweetsPerBatch d)) tweetIds"
    by (simp add: chunks_spec_map comp_def)
  have len: "length (chunks_spec (nat (tweetsPerBatch d)) ?tweets) =
      length (chunks_spec (nat (tweetsPerBatch d)) tweetIds)"
    using arg_cong [OF ids, of length] by simp
  have conf: "srv_conf s = Some (tweetsPerBatch d, batchDelayMinutes d)"
    using assms(1) by (simp add: srv_conf_def)
  from srv_batches_chunks [OF assms(2) _ assms(3) conf r] tr ids len
  show "batches_of (trace s') =
           batches_of (trace s) @ chunks_spec (nat (tweetsPerBatch d)) tweetIds"
    and "batch_sleeps_of (trace s') =
           batch_sleeps_of (trace s) @
             replicate (length (chunks_spec (nat (tweetsPerBatch d)) tweetIds) - 1)
               (batchDelayMinutes d)"
    by simp_all
qed

section \<open>\<open>processDeletion\<close> after a 429\<close>

text \<open>
  What the 429 handler of \<open>processDeletion\<close> does to the loops: the counters stay as
  they are, the batch loop's index goes down by one, and the loop over the batch goes on
  with the tweets after the throttled one.
\<close>

lemma srv_throttle_not_counted:
  assumes "err_code error = 429"
    and "srv_attempt tw i (Raised error, now_ms) reqs s = (i', reqs', s')"
  shows "i' = i - 1 \<and> deletionStats s' = deletionStats s \<and> srv_conf s' = srv_conf s \<and>
         (reqs = [] \<longrightarrow> the_deleter s' = the_deleter s)"
proof -
  from assms
  have "i' = i - 1 \<and> deletionStats s' = deletionStats s \<and> srv_conf s' = srv_conf s"
    by (auto simp: srv_attempt_def deleteTweet_def split_beta prod_eq_iff)
  moreover from assms have "reqs = [] \<longrightarrow> the_deleter s' = the_deleter s"
    by (auto simp: srv_attempt_def deleteTweet_def await_point_def)
  ultimately show ?thesis by simp
qed

lemma srv_items_skips_throttled_tweet:
  assumes "err_code error = 429" and "the_deleter s \<noteq> None"
  shows "srv_items (tw # batch) i ((Raised error, now_ms) # rs) reqs s =
           (case await_point reqs (srv_event (Attempt (tweet_id tw)) s) of
              (reqs1, s1) \<Rightarrow>
                (case await_point reqs1
                        (srv_event (RateLimitSleep (srv_rate_limit_wait error now_ms)
                                      (sleep (srv_rate_limit_wait error now_ms))) s1) of
                   (reqs2, s2) \<Rightarrow> srv_items batch (i - 1) rs reqs2 s2))"
  using assms by (auto simp: srv_attempt_def deleteTweet_def split_beta)

text \<open>
  C1. The claim: after a 429 the scheduler attempts the same item again, after the wait,
  without advancing, and does not count the item as failed. \<open>deleteTweetsInBatches\<close>
  does so (\<open>cli_items_retries_same_tweet\<close>). \<open>processDeletion\<close> does not: its
  \<open>i--; continue\<close> under the comment \<open>Retry this tweet\<close> lowers the index of the batch
  loop and goes on with the next tweet of the batch. In the run below the only tweet gets a
  429; the run waits 15 minutes, never calls \<open>deleteTweet\<close> for it again although the
  endpoint would have accepted, and returns with \<open>deleted = 0\<close>, \<open>failed = 0\<close> and an
  empty log.
\<close>

theorem processDeletion_drops_throttled_tweet:
  "processDeletion 2 [''1'']
     [(Raised \<lparr> err_code = 429, err_message = ''Too Many Requests'', rate_reset = None \<rparr>, 0),
      (Resolved, 900000)]
     [] True
     \<lparr> trace = [], log_file = None, the_deleter = Some (new_TweetDeleter None None),
       deletionInProgress = True,
       deletionStats = \<lparr> deleted = 0, failed = 0, total = 1 \<rparr> \<rparr>
   = Returned
     \<lparr> trace = [Batch [''1''], Attempt ''1'', RateLimitSleep (Some 15) 15, LogSaved],
       log_file = Some [],
       the_deleter = Some \<lparr> tweetsPerBatch = 5, batchDelayMinutes = 90,
                              maxDeletionsPerDay = 15, deletedTweets = [] \<rparr>,
       deletionInProgress = False,
       deletionStats = \<lparr> deleted = 0, failed = 0, total = 1 \<rparr> \<rparr>"
  by code_simp

text \<open>
  C4. The claim: the list is cut into \<open>ceil(N/B)\<close> contiguous chunks whose concatenation
  is the list. The loop head does that (\<open>concat_chunks_spec\<close>, \<open>length_chunks_spec\<close>,
  \<open>chunk_sizes\<close>), in \<open>deleteTweetsInBatches\<close> for every run (\<open>cli_run_chunks\<close>) and in
  \<open>processDeletion\<close> when no reply is a 429 (\<open>srv_run_chunks\<close>). After a 429 the
  \<open>i--\<close> of \<open>processDeletion\<close> shifts the next chunk: below, two tweets with batch size
  2 are cut into the chunks \<open>[a, b]\<close> and \<open>[b]\<close>, two chunks instead of one, and \<open>b\<close>
  is attempted twice while \<open>a\<close> is never attempted again.
\<close>

theorem processDeletion_chunks_overlap_after_429:
  "processDeletion 3 [''a'', ''b'']
     [(Raised \<lparr> err_code = 429, err_message = ''Too Many Requests'', rate_reset = None \<rparr>, 0),
      (Resolved, 900000),
      (Raised \<lparr> err_code = 404, err_message = ''Not Found'', rate_reset = None \<rparr>, 6301000)]
     [] True
     \<lparr> trace = [], log_file = None, the_deleter = Some (new_TweetDeleter (Some 2) None),
       deletionInProgress = True,
       deletionStats = \<lparr> deleted = 0, failed = 0, total = 2 \<rparr> \<rparr>
   = Returned
     \<lparr> trace = [Batch [''a'', ''b''], Attempt ''a'', RateLimitSleep (Some 15) 15, Attempt ''b'',
                Deleted ''b'' 900000, ItemPause 1000, BatchSleep 90 90, Batch [''b''],
                Attempt ''b'', Failed ''b'', ItemPause 1000, LogSaved],
       log_file = Some [\<lparr> entry_id = ''b'', entry_text = None, entry_created_at = None,
                          deleted_at = 900000 \<rparr>],
       the_deleter = Some \<lparr> tweetsPerBatch = 2, batchDelayMinutes = 90,
                              maxDeletionsPerDay = 15,
                              deletedTweets = [\<lparr> entry_id = ''b'', entry_text = None,
                                  entry_created_at = None, deleted_at = 900000 \<rparr>] \<rparr>,
       deletionInProgress = False,
       deletionStats = \<lparr> deleted = 1, failed = 1, total = 2 \<rparr> \<rparr>"
  by code_simp

text \<open>
  C6. The claim: a wait of \<open>batchDelayMinutes\<close> after each chunk but the last, so
  \<open>ceil(N/B) - 1\<close> waits. \<open>deleteTweetsInBatches\<close> does so for every run
  (\<open>cli_run_chunks\<close>), \<open>processDeletion\<close> when no reply is a 429 (\<open>srv_run_chunks\<close>).
  After a 429 the test \<open>i + tweetsPerBatch < tweets.length\<close> of \<open>processDeletion\<close> sees
  the lowered \<open>i\<close>: below, two tweets with batch size 1 (two chunks, so one wait) make
  the run wait 90 minutes twice, the first time right after the wait for the 429.
\<close>

theorem processDeletion_extra_batch_delay_after_429:
  "processDeletion 4 [''a'', ''b'']
     [(Raised \<lparr> err_code = 429, err_message = ''Too Many Requests'', rate_reset = None \<rparr>, 0),
      (Resolved, 6300000),
      (Resolved, 11701000)]
     [] True
     \<lparr> trace = [], log_file = None, the_deleter = Some (new_TweetDeleter (Some 1) None),
       deletionInProgress = True,
       deletionStats = \<lparr> deleted = 0, failed = 0, total = 2 \<rparr> \<rparr>
   = Returned
     \<lparr> trace = [Batch [''a''], Attempt ''a'', RateLimitSleep (Some 15) 15, BatchSleep 90 90,
                Batch [''a''], Attempt ''a'', Deleted ''a'' 6300000, ItemPause 1000,
                BatchSleep 90 90, Batch [''b''], Attempt ''b'', Deleted ''b'' 11701000,
                ItemPause 1000, LogSaved],
       log_file = Some [\<lparr> entry_id = ''a'', entry_text = None, entry_created_at = None,
                          deleted_at = 6300000 \<rparr>,
                        \<lparr> entry_id = ''b'', entry_text = None, entry_created_at = None,
                          deleted_at = 11701000 \<rparr>],
       the_deleter = Some \<lparr> tweetsPerBatch = 1, batchDelayMinutes = 90,
                              maxDeletionsPerDay = 15,
                              deletedTweets =
                                [\<lparr> entry_id = ''a'', entry_text = None,
                                   entry_created_at = None, deleted_at = 6300000 \<rparr>,
                                 \<lparr> entry_id = ''b'', entry_text = None,
                                   entry_created_at = None, deleted_at = 11701000 \<rparr>] \<rparr>,
       deletionInProgress = False,
       deletionStats = \<lparr> deleted = 2, failed = 0, total = 2 \<rparr> \<rparr>"
  by code_simp

section \<open>The log of a run\<close>

lemma deleted_of_append [simp]: "deleted_of (tr @ tr') = deleted_of tr @ deleted_of tr'"
  by (simp add: deleted_of_def)

lemma deleted_of_single [simp]:
  "deleted_of [] = []"
  "deleted_of [Deleted tid t] = [(tid, t)]"
  "deleted_of [Batch ids] = []"
  "deleted_of [Attempt tid] = []"
  "deleted_of [Failed tid] = []"
  "deleted_of [ItemPause ms] = []"
  "deleted_of [RateLimitSleep m w] = []"
  "deleted_of [BatchSleep D w] = []"
  "deleted_of [LogSaved] = []"
  "deleted_of [Reinitialized] = []"
  by (simp_all add: deleted_of_def)

lemma log_inv_start: "log_inv before [] before"
  by (simp add: log_inv_def)

lemma log_inv_length: "log_inv before tr entries \<Longrightarrow> length before \<le> length entries"
  by (metis log_inv_def length_take min.cobounded1)

lemma log_inv_push:
  assumes "log_inv before tr entries" and "entry_key e = (tid, t)"
  shows "log_inv before (tr @ [Deleted tid t]) (entries @ [e])"
  using assms log_inv_length [OF assms(1)] by (simp add: log_inv_def)

lemma log_inv_other:
  "log_inv before tr entries \<Longrightarrow> deleted_of [e] = [] \<Longrightarrow> log_inv before (tr @ [e]) entries"
  by (simp add: log_inv_def)

lemma log_inv_split:
  "log_inv before tr entries \<Longrightarrow>
   \<exists>new. entries = before @ new \<and> map entry_key new = deleted_of tr"
  by (metis append_take_drop_id log_inv_def)

lemma srv_event_log:
  "srv_log_inv before s \<Longrightarrow> deleted_of [e] = [] \<Longrightarrow> srv_log_inv before (srv_event e s)"
  by (auto simp: srv_log_inv_def srv_event_def intro: log_inv_other split: option.splits)

lemma srv_count_log:
  "srv_log_inv before (count_failed s) = srv_log_inv before s"
  "srv_log_inv before (count_deleted s) = srv_log_inv before s"
  by (simp_all add: srv_log_inv_def count_failed_def count_deleted_def split: option.splits)

lemma srv_push_log:
  assumes "srv_log_inv before s" and "entry_key e = (tid, t)"
  shows "srv_log_inv before (srv_event (Deleted tid t) (push_deleted e s))"
  using assms
  by (auto simp: srv_log_inv_def srv_event_def push_deleted_def intro: log_inv_push
           split: option.splits)

lemma await_point_trace:
  "trace (snd (await_point reqs s)) = trace s \<and>
     the_deleter (snd (await_point reqs s)) = the_deleter s \<or>
   Reinitialized \<in> set (trace (snd (await_point reqs s)))"
  by (auto simp: await_point_def reinitialize_def split: list.splits option.splits)

lemma await_point_log:
  "srv_log_inv before s \<Longrightarrow> srv_log_inv before (snd (await_point reqs s))"
  by (auto simp: srv_log_inv_def await_point_def reinitialize_def
           split: list.splits option.splits)

lemma srv_attempt_log:
  assumes "srv_log_inv before s" and "srv_attempt tw i r reqs s = (i', reqs', s')"
  shows "srv_log_inv before s'"
proof -
  let ?p1 = "await_point reqs (srv_event (Attempt (tweet_id tw)) s)"
  have att: "srv_log_inv before (snd ?p1)"
    by (rule await_point_log, rule srv_event_log [OF assms(1)]) simp
  show ?thesis
  proof (cases "deleteTweet (tweet_id tw) (fst r)")
    case (Inl error)
    with assms(2) att show ?thesis
      by (auto simp: srv_attempt_def split_beta prod_eq_iff srv_event_log srv_count_log
                     await_point_log
               split: if_splits)
  next
    case (Inr result)
    with assms(2) att show ?thesis
      by (auto simp: srv_attempt_def split_beta prod_eq_iff srv_event_log srv_count_log
                     srv_push_log await_point_log entry_key_def
               split: if_splits)
  qed
qed

lemma srv_items_log:
  "srv_log_inv before s \<Longrightarrow> srv_items batch i rs reqs s = ((i', reqs', s'), ro) \<Longrightarrow>
   srv_log_inv before s'"
proof (induction batch i rs reqs s rule: srv_items.induct)
  case (1 i rs reqs s)
  then show ?case by simp
next
  case (2 tw batch i rs reqs s)
  show ?case
  proof (cases "the_deleter s")
    case None
    with "2.prems"(1) show ?thesis by (simp add: srv_log_inv_def)
  next
    case (Some d)
    show ?thesis
    proof (cases rs)
      case Nil
      with 2 Some show ?thesis by simp
    next
      case (Cons r rs1)
      obtain i1 reqs1 s1 where a: "srv_attempt tw i r reqs s = (i1, reqs1, s1)"
        by (metis prod.exhaust)
      with 2 Some Cons have rest: "srv_items batch i1 rs1 reqs1 s1 = ((i', reqs', s'), ro)"
        by simp
      from "2.IH"(2) [OF Some Cons a [symmetric] refl srv_attempt_log [OF "2.prems"(1) a] rest]
      show ?thesis .
    qed
  qed
qed

lemma srv_batches_log:
  "srv_log_inv before s \<Longrightarrow> srv_batches fuel tweets i rs reqs s = Returned (reqs', s') \<Longrightarrow>
   srv_log_inv before s'"
proof (induction fuel arbitrary: i rs reqs s)
  case 0
  then show ?case by simp
next
  case (Suc fuel)
  show ?case
  proof (cases "i < int (length tweets)")
    case False
    with Suc.prems show ?thesis by simp
  next
    case True
    from Suc.prems(1) obtain d where d: "the_deleter s = Some d"
      by (auto simp: srv_log_inv_def split: option.splits)
    let ?batch = "slice tweets i (i + tweetsPerBatch d)"
    let ?s0 = "srv_event (Batch (map tweet_id ?batch)) s"
    obtain i1 reqs1 s1 ro where
      items: "srv_items ?batch i rs reqs ?s0 = ((i1, reqs1, s1), ro)"
      by (metis prod.exhaust)
    have "srv_log_inv before ?s0"
      by (rule srv_event_log [OF Suc.prems(1)]) simp
    from srv_items_log [OF this items] have inv1: "srv_log_inv before s1" .
    then obtain B D where c1: "srv_conf s1 = Some (B, D)"
      by (auto simp: srv_log_inv_def srv_conf_def split: option.splits)
    from Suc.prems True items d obtain rs' where ro: "ro = Some rs'"
      by (cases ro) (simp_all add: Let_def)
    let ?p = "if i1 + B < int (length tweets)
              then await_point reqs1 (srv_event (BatchSleep D (sleep (Some D))) s1)
              else (reqs1, s1)"
    from Suc.prems True items ro d srv_batch_end_conf [OF c1, of tweets i1 reqs1]
    have rec: "srv_batches fuel tweets (i1 + B) rs' (fst ?p) (snd ?p) = Returned (reqs', s')"
      by (simp add: Let_def split_beta split: if_splits)
    have "srv_log_inv before (snd ?p)"
      using inv1 by (simp add: srv_event_log await_point_log)
    from Suc.IH [OF this rec] show ?thesis .
  qed
qed

lemma cli_event_log:
  "cli_log_inv before s \<Longrightarrow> deleted_of [e] = [] \<Longrightarrow> cli_log_inv before (cli_event e s)"
  by (simp add: cli_log_inv_def cli_event_def log_inv_other)

lemma cli_attempt_log:
  assumes "cli_log_inv before s" and "cli_attempt tw j r s = (j', s')"
  shows "cli_log_inv before s'"
proof -
  let ?s0 = "cli_event (Attempt (tweet_id tw)) s"
  have att: "cli_log_inv before ?s0"
    by (rule cli_event_log [OF assms(1)]) simp
  have counted: "cli_log_inv before (?s0\<lparr> failedCount := failedCount ?s0 + 1 \<rparr>)"
    using att by (simp add: cli_log_inv_def)
  have pushed: "cli_log_inv before
      (cli_event (Deleted (tweet_id tw) (snd r))
        (?s0\<lparr> deletedCount := deletedCount ?s0 + 1,
              this := (this ?s0)\<lparr> deletedTweets := deletedTweets (this ?s0) @
                 [\<lparr> entry_id = tweet_id tw, entry_text = tweet_text tw,
                    entry_created_at = created_at tw, deleted_at = snd r \<rparr>] \<rparr> \<rparr>))"
  proof -
    from att have "log_inv before (trace ?s0) (deletedTweets (this ?s0))"
      by (simp add: cli_log_inv_def)
    from log_inv_push [OF this, of
        "\<lparr> entry_id = tweet_id tw, entry_text = tweet_text tw,
           entry_created_at = created_at tw, deleted_at = snd r \<rparr>" "tweet_id tw" "snd r"]
    show ?thesis by (simp add: cli_log_inv_def cli_event_def entry_key_def)
  qed
  show ?thesis
  proof (cases "deleteTweet (tweet_id tw) (fst r)")
    case (Inl error)
    with assms(2) att counted show ?thesis
      by (auto simp: cli_attempt_def Let_def cli_event_log split: if_splits)
  next
    case (Inr result)
    with assms(2) counted pushed show ?thesis
      by (auto simp: cli_attempt_def Let_def cli_event_log split: if_splits)
  qed
qed

lemma cli_items_log:
  "cli_log_inv before s \<Longrightarrow> cli_items batch j rs s = (s', ro) \<Longrightarrow> cli_log_inv before s'"
proof (induction batch j rs s rule: cli_items.induct)
  case (1 batch j s)
  then show ?case by (auto split: if_splits)
next
  case (2 batch j r rs s)
  show ?case
  proof (cases "j < int (length batch)")
    case False
    with 2 show ?thesis by simp
  next
    case True
    obtain j1 s1 where a: "cli_attempt (batch ! nat j) j r s = (j1, s1)"
      by (cases "cli_attempt (batch ! nat j) j r s")
    with 2 True have rest: "cli_items batch (j1 + 1) rs s1 = (s', ro)" by simp
    from "2.IH" [OF True a [symmetric] cli_attempt_log [OF "2.prems"(1) a] rest]
    show ?thesis .
  qed
qed

lemma cli_batches_log:
  "cli_log_inv before s \<Longrightarrow> cli_batches fuel tweets i rs s = Returned s' \<Longrightarrow>
   cli_log_inv before s'"
proof (induction fuel arbitrary: i rs s)
  case 0
  then show ?case by simp
next
  case (Suc fuel)
  show ?case
  proof (cases "i < int (length tweets)")
    case False
    with Suc.prems show ?thesis by simp
  next
    case True
    let ?batch = "slice tweets i (i + tweetsPerBatch (this s))"
    let ?s0 = "cli_event (Batch (map tweet_id ?batch)) s"
    obtain s1 ro where items: "cli_items ?batch 0 rs ?s0 = (s1, ro)"
      by (cases "cli_items ?batch 0 rs ?s0")
    have "cli_log_inv before ?s0"
      by (rule cli_event_log [OF Suc.prems(1)]) simp
    from cli_items_log [OF this items] have inv1: "cli_log_inv before s1" .
    from Suc.prems True items obtain rs' where ro: "ro = Some rs'"
      by (cases ro) (simp_all add: Let_def)
    let ?s2 = "if i + tweetsPerBatch (this s1) < int (length tweets)
               then cli_event (BatchSleep (batchDelayMinutes (this s1))
                                   (sleep (Some (batchDelayMinutes (this s1))))) s1
               else s1"
    from Suc.prems True items ro
    have rec: "cli_batches fuel tweets (i + tweetsPerBatch (this s1)) rs' ?s2 = Returned s'"
      by (auto simp: Let_def split: if_splits)
    have "cli_log_inv before ?s2"
      using inv1 by (simp add: cli_event_log)
    from Suc.IH [OF this rec] show ?thesis .
  qed
qed

text \<open>
  C3, as stated: the log file of a completed run has one record for every terminal
  outcome, deleted or failed. It fails for the run below: the only tweet fails with a 404,
  the counter \<open>failed\<close> becomes 1, and the log written at the end is empty. Only a
  successful deletion pushes to \<open>deletedTweets\<close>, in the server and on the command line.
\<close>

theorem log_file_misses_failed_tweet:
  "\<not> log_records_outcomes
       (trace (run_state (processDeletion 2 [''1'']
          [(Raised \<lparr> err_code = 404, err_message = ''Not Found'', rate_reset = None \<rparr>, 0)]
          [] True
          \<lparr> trace = [], log_file = None, the_deleter = Some (new_TweetDeleter None None),
            deletionInProgress = True,
            deletionStats = \<lparr> deleted = 0, failed = 0, total = 1 \<rparr> \<rparr>)))
       (log_file (run_state (processDeletion 2 [''1'']
          [(Raised \<lparr> err_code = 404, err_message = ''Not Found'', rate_reset = None \<rparr>, 0)]
          [] True
          \<lparr> trace = [], log_file = None, the_deleter = Some (new_TweetDeleter None None),
            deletionInProgress = True,
            deletionStats = \<lparr> deleted = 0, failed = 0, total = 1 \<rparr> \<rparr>)))"
  by code_simp

text \<open>
  In the server the records of successful deletions can be lost as well. Below both tweets
  are deleted; while the run awaits the second call of \<open>deleteTweet\<close> the server handles
  a \<open>POST /api/initialize\<close>, the second push goes to the new deleter, and the log that
  is written has the second record only.
\<close>

lemma log_file_after_reinitialize:
  "processDeletion 2 [''1'', ''2''] [(Resolved, 5), (Resolved, 1009)]
     [False, False, True] True
     \<lparr> trace = [], log_file = None, the_deleter = Some (new_TweetDeleter None None),
       deletionInProgress = True,
       deletionStats = \<lparr> deleted = 0, failed = 0, total = 2 \<rparr> \<rparr>
   = Returned
     \<lparr> trace = [Batch [''1'', ''2''], Attempt ''1'', Deleted ''1'' 5, ItemPause 1000,
                Attempt ''2'', Reinitialized, Deleted ''2'' 1009, ItemPause 1000, LogSaved],
       log_file = Some [\<lparr> entry_id = ''2'', entry_text = None, entry_created_at = None,
                          deleted_at = 1009 \<rparr>],
       the_deleter = Some \<lparr> tweetsPerBatch = 5, batchDelayMinutes = 90,
                              maxDeletionsPerDay = 15,
                              deletedTweets = [\<lparr> entry_id = ''2'', entry_text = None,
                                  entry_created_at = None, deleted_at = 1009 \<rparr>] \<rparr>,
       deletionInProgress = False,
       deletionStats = \<lparr> deleted = 2, failed = 0, total = 2 \<rparr> \<rparr>"
  by code_simp

text \<open>
  C3, amended: when a run has completed and the log has been written, the file holds the
  entries \<open>deletedTweets\<close> had before the run, followed by one record (tweet id and time
  of deletion) for every successful deletion of the run, in the order of the attempts;
  failed items are not written. This holds for the command line
  (\<open>deleteTweetsInBatches\<close> followed by \<open>saveDeletionLog\<close>), and for
  \<open>processDeletion\<close> when the server has handled no \<open>POST /api/initialize\<close> during
  the run.
\<close>

theorem log_file_records_deleted_tweets:
  "(trace s = [] \<and> the_deleter s = Some d \<and>
      processDeletion fuel tweetIds rs reqs True s = Returned s' \<and>
      Reinitialized \<notin> set (trace s') \<longrightarrow>
      (\<exists>new. log_file s' = Some (deletedTweets d @ new) \<and>
             map entry_key new = deleted_of (trace s'))) \<and>
   (trace cs = [] \<and> cli_main_delete fuel tweets rs True cs = Returned cs' \<longrightarrow>
      (\<exists>new. log_file cs' = Some (deletedTweets (this cs) @ new) \<and>
             map entry_key new = deleted_of (trace cs')))"
proof (intro conjI impI)
  assume a: "trace s = [] \<and> the_deleter s = Some d \<and>
      processDeletion fuel tweetIds rs reqs True s = Returned s' \<and>
      Reinitialized \<notin> set (trace s')"
  let ?tweets = "map (\<lambda>tid. \<lparr> tweet_id = tid, tweet_text = None, created_at = None \<rparr>) tweetIds"
  let ?r = "srv_batches fuel ?tweets 0 rs reqs s"
  from a have start: "srv_log_inv (deletedTweets d) s"
    by (simp add: srv_log_inv_def log_inv_start)
  from a have nt: "\<And>x. ?r \<noteq> Threw x" by (intro srv_batches_not_Threw) simp
  from a nt obtain reqs1 s1 where r: "?r = Returned (reqs1, s1)"
    by (cases ?r) (auto simp: processDeletion_def Let_def)
  from srv_batches_log [OF start r] obtain d1 where d1: "the_deleter s1 = Some d1"
    and inv: "Reinitialized \<in> set (trace s1) \<or>
              log_inv (deletedTweets d) (trace s1) (deletedTweets d1)"
    by (auto simp: srv_log_inv_def split: option.splits)
  let ?s2 = "snd (await_point reqs1 s1)"
  from a r d1 have s': "log_file s' = Some (deletedTweets d1)" "trace s' = trace ?s2 @ [LogSaved]"
    by (auto simp: processDeletion_def Let_def srv_saveDeletionLog_def srv_event_def split_beta)
  with a have "Reinitialized \<notin> set (trace ?s2)" by simp
  with await_point_trace [of reqs1 s1] have same: "trace ?s2 = trace s1" by blast
  with \<open>Reinitialized \<notin> set (trace ?s2)\<close> inv
  have "log_inv (deletedTweets d) (trace s1) (deletedTweets d1)" by simp
  from log_inv_split [OF this] s' same
  show "\<exists>new. log_file s' = Some (deletedTweets d @ new) \<and>
             map entry_key new = deleted_of (trace s')"
    by auto
next
  assume a: "trace cs = [] \<and> cli_main_delete fuel tweets rs True cs = Returned cs'"
  let ?c0 = "cs\<lparr> deletedCount := 0, failedCount := 0 \<rparr>"
  let ?r = "cli_batches fuel tweets 0 rs ?c0"
  from a have start: "cli_log_inv (deletedTweets (this cs)) ?c0"
    by (simp add: cli_log_inv_def log_inv_start)
  from a obtain c1 where r: "?r = Returned c1"
    by (cases ?r) (auto simp: cli_main_delete_def deleteTweetsInBatches_def)
  from cli_batches_log [OF start r]
  have inv: "log_inv (deletedTweets (this cs)) (trace c1) (deletedTweets (this c1))"
    by (simp add: cli_log_inv_def)
  from a r have c': "log_file cs' = Some (deletedTweets (this c1))"
      "trace cs' = trace c1 @ [LogSaved]"
    by (auto simp: cli_main_delete_def deleteTweetsInBatches_def cli_saveDeletionLog_def
                   cli_event_def)
  from log_inv_split [OF inv] c'
  show "\<exists>new. log_file cs' = Some (deletedTweets (this cs) @ new) \<and>
             map entry_key new = deleted_of (trace cs')"
    by auto
qed

theorem log_file_records_deleted_tweets_witness:
  "(let s' = run_state (processDeletion 2 [''1'', ''2'']
       [(Resolved, 5),
        (Raised \<lparr> err_code = 404, err_message = ''Not Found'', rate_reset = None \<rparr>, 1009)]
       [False, False] True
       \<lparr> trace = [], log_file = None, the_deleter = Some (new_TweetDeleter None None),
         deletionInProgress = True,
         deletionStats = \<lparr> deleted = 0, failed = 0, total = 2 \<rparr> \<rparr>)
    in Reinitialized \<notin> set (trace s') \<and> deleted_of (trace s') = [(''1'', 5)] \<and>
       (\<exists>new. log_file s' = Some (deletedTweets (new_TweetDeleter None None) @ new) \<and>
              map entry_key new = deleted_of (trace s'))) \<and>
   (let cs' = run_state (cli_main_delete 2
       [\<lparr> tweet_id = ''1'', tweet_text = Some ''hello'', created_at = Some ''2020'' \<rparr>,
        \<lparr> tweet_id = ''2'', tweet_text = Some ''bye'', created_at = None \<rparr>]
       [(Resolved, 5),
        (Raised \<lparr> err_code = 404, err_message = ''Not Found'', rate_reset = None \<rparr>, 300009)]
       True
       \<lparr> trace = [], log_file = None, this = new_TweetDeleter None None,
         deletedCount = 0, failedCount = 0 \<rparr>)
    in deleted_of (trace cs') = [(''1'', 5)] \<and>
       (\<exists>new. log_file cs' = Some (deletedTweets (new_TweetDeleter None None) @ new) \<and>
              map entry_key new = deleted_of (trace cs')))"
proof -
  have r1: "processDeletion 2 [''1'', ''2'']
     [(Resolved, 5),
      (Raised \<lparr> err_code = 404, err_message = ''Not Found'', rate_reset = None \<rparr>, 1009)]
     [False, False] True
     \<lparr> trace = [], log_file = None, the_deleter = Some (new_TweetDeleter None None),
       deletionInProgress = True,
       deletionStats = \<lparr> deleted = 0, failed = 0, total = 2 \<rparr> \<rparr>
   = Returned
     \<lparr> trace = [Batch [''1'', ''2''], Attempt ''1'', Deleted ''1'' 5, ItemPause 1000,
                Attempt ''2'', Failed ''2'', ItemPause 1000, LogSaved],
       log_file = Some [\<lparr> entry_id = ''1'', entry_text = None, entry_created_at = None,
                          deleted_at = 5 \<rparr>],
       the_deleter = Some \<lparr> tweetsPerBatch = 5, batchDelayMinutes = 90,
                              maxDeletionsPerDay = 15,
                              deletedTweets = [\<lparr> entry_id = ''1'', entry_text = None,
                                  entry_created_at = None, deleted_at = 5 \<rparr>] \<rparr>,
       deletionInProgress = False,
       deletionStats = \<lparr> deleted = 1, failed = 1, total = 2 \<rparr> \<rparr>"
    by code_simp
  have r2: "cli_main_delete 2
     [\<lparr> tweet_id = ''1'', tweet_text = Some ''hello'', created_at = Some ''2020'' \<rparr>,
      \<lparr> tweet_id = ''2'', tweet_text = Some ''bye'', created_at = None \<rparr>]
     [(Resolved, 5),
      (Raised \<lparr> err_code = 404, err_message = ''Not Found'', rate_reset = None \<rparr>, 300009)]
     True
     \<lparr> trace = [], log_file = None, this = new_TweetDeleter None None,
       deletedCount = 0, failedCount = 0 \<rparr>
   = Returned
     \<lparr> trace = [Batch [''1'', ''2''], Attempt ''1'', Deleted ''1'' 5, ItemPause 300000,
                Attempt ''2'', Failed ''2'', ItemPause 300000, LogSaved],
       log_file = Some [\<lparr> entry_id = ''1'', entry_text = Some ''hello'',
                          entry_created_at = Some ''2020'', deleted_at = 5 \<rparr>],
       this = \<lparr> tweetsPerBatch = 5, batchDelayMinutes = 90, maxDeletionsPerDay = 15,
                 deletedTweets = [\<lparr> entry_id = ''1'', entry_text = Some ''hello'',
                                    entry_created_at = Some ''2020'', deleted_at = 5 \<rparr>] \<rparr>,
       deletedCount = 1, failedCount = 1 \<rparr>"
    by code_simp
  note t1 = log_file_records_deleted_tweets [where
      s = "\<lparr> trace = [], log_file = None, the_deleter = Some (new_TweetDeleter None None),
       deletionInProgress = True,
       deletionStats = \<lparr> deleted = 0, failed = 0, total = 2 \<rparr> \<rparr>"
      and d = "new_TweetDeleter None None" and fuel = 2 and tweetIds = "[''1'', ''2'']"
      and rs = "[(Resolved, 5),
      (Raised \<lparr> err_code = 404, err_message = ''Not Found'', rate_reset = None \<rparr>, 1009)]"
      and reqs = "[False, False]"
      and cs = "\<lparr> trace = [], log_file = None, this = new_TweetDeleter None None,
       deletedCount = 0, failedCount = 0 \<rparr>", THEN conjunct1]
  have a: "\<exists>new. log_file
       \<lparr> trace = [Batch [''1'', ''2''], Attempt ''1'', Deleted ''1'' 5, ItemPause 1000,
                Attempt ''2'', Failed ''2'', ItemPause 1000, LogSaved],
       log_file = Some [\<lparr> entry_id = ''1'', entry_text = None, entry_created_at = None,
                          deleted_at = 5 \<rparr>],
       the_deleter = Some \<lparr> tweetsPerBatch = 5, batchDelayMinutes = 90,
                              maxDeletionsPerDay = 15,
                              deletedTweets = [\<lparr> entry_id = ''1'', entry_text = None,
                                  entry_created_at = None, deleted_at = 5 \<rparr>] \<rparr>,
       deletionInProgress = False,
       deletionStats = \<lparr> deleted = 1, failed = 1, total = 2 \<rparr> \<rparr>
       = Some (deletedTweets (new_TweetDeleter None None) @ new) \<and>
     map entry_key new = [(''1'', 5)]"
    using t1 [of "\<lparr> trace = [Batch [''1'', ''2''], Attempt ''1'', Deleted ''1'' 5, ItemPause 1000,
                Attempt ''2'', Failed ''2'', ItemPause 1000, LogSaved],
       log_file = Some [\<lparr> entry_id = ''1'', entry_text = None, entry_created_at = None,
                          deleted_at = 5 \<rparr>],
       the_deleter = Some \<lparr> tweetsPerBatch = 5, batchDelayMinutes = 90,
                              maxDeletionsPerDay = 15,
                              deletedTweets = [\<lparr> entry_id = ''1'', entry_text = None,
                                  entry_created_at = None, deleted_at = 5 \<rparr>] \<rparr>,
       deletionInProgress = False,
       deletionStats = \<lparr> deleted = 1, failed = 1, total = 2 \<rparr> \<rparr>"] r1 by (simp add: deleted_of_def)
  note t2 = log_file_records_deleted_tweets [where
      cs = "\<lparr> trace = [], log_file = None, this = new_TweetDeleter None None,
       deletedCount = 0, failedCount = 0 \<rparr>"
      and fuel = 2
      and tweets = "[\<lparr> tweet_id = ''1'', tweet_text = Some ''hello'', created_at = Some ''2020'' \<rparr>,
      \<lparr> tweet_id = ''2'', tweet_text = Some ''bye'', created_at = None \<rparr>]"
      and rs = "[(Resolved, 5),
      (Raised \<lparr> err_code = 404, err_message = ''Not Found'', rate_reset = None \<rparr>, 300009)]"
      and s = "\<lparr> trace = [], log_file = None, the_deleter = Some (new_TweetDeleter None None),
       deletionInProgress = True,
       deletionStats = \<lparr> deleted = 0, failed = 0, total = 2 \<rparr> \<rparr>", THEN conjunct2]
  have b: "\<exists>new. log_file
       \<lparr> trace = [Batch [''1'', ''2''], Attempt ''1'', Deleted ''1'' 5, ItemPause 300000,
                Attempt ''2'', Failed ''2'', ItemPause 300000, LogSaved],
       log_file = Some [\<lparr> entry_id = ''1'', entry_text = Some ''hello'',
                          entry_created_at = Some ''2020'', deleted_at = 5 \<rparr>],
       this = \<lparr> tweetsPerBatch = 5, batchDelayMinutes = 90, maxDeletionsPerDay = 15,
                 deletedTweets = [\<lparr> entry_id = ''1'', entry_text = Some ''hello'',
                                    entry_created_at = Some ''2020'', deleted_at = 5 \<rparr>] \<rparr>,
       deletedCount = 1, failedCount = 1 \<rparr>
       = Some (deletedTweets (new_TweetDeleter None None) @ new) \<and>
     map entry_key new = [(''1'', 5)]"
    using t2 [of "\<lparr> trace = [Batch [''1'', ''2''], Attempt ''1'', Deleted ''1'' 5, ItemPause 300000,
                Attempt ''2'', Failed ''2'', ItemPause 300000, LogSaved],
       log_file = Some [\<lparr> entry_id = ''1'', entry_text = Some ''hello'',
                          entry_created_at = Some ''2020'', deleted_at = 5 \<rparr>],
       this = \<lparr> tweetsPerBatch = 5, batchDelayMinutes = 90, maxDeletionsPerDay = 15,
                 deletedTweets = [\<lparr> entry_id = ''1'', entry_text = Some ''hello'',
                                    entry_created_at = Some ''2020'', deleted_at = 5 \<rparr>] \<rparr>,
       deletedCount = 1, failedCount = 1 \<rparr>"] r2 by (simp add: deleted_of_def)
  from a show ?thesis
    unfolding r1 r2 Let_def run_state.simps using b by (simp add: deleted_of_def)
qed

section \<open>The bound on the turns of the batch loop\<close>

text \<open>
  With a positive batch size every turn of the batch loop consumes a reply or waits for
  one, so a bound above the number of replies is never used up: such a run has returned
  or awaits the endpoint.
\<close>

lemma srv_items_replies:
  "the_deleter s \<noteq> None \<Longrightarrow> srv_items batch i rs reqs s = (x, Some rs') \<Longrightarrow>
   length rs = length batch + length rs'"
proof (induction batch i rs reqs s rule: srv_items.induct)
  case (1 i rs reqs s)
  then show ?case by simp
next
  case (2 tw batch i rs reqs s)
  from "2.prems"(1) obtain d where d: "the_deleter s = Some d" by blast
  show ?case
  proof (cases rs)
    case Nil
    with 2 d show ?thesis by simp
  next
    case (Cons r rs1)
    obtain i1 reqs1 s1 where a: "srv_attempt tw i r reqs s = (i1, reqs1, s1)"
      by (metis prod.exhaust)
    with 2 d Cons have rest: "srv_items batch i1 rs1 reqs1 s1 = (x, Some rs')"
      by simp
    from srv_attempt_count [OF a] d have "the_deleter s1 \<noteq> None"
      by (auto simp: srv_conf_def)
    from "2.IH"(2) [OF d Cons a [symmetric] refl this rest] Cons
    show ?thesis by simp
  qed
qed

lemma srv_batches_fuel:
  "srv_conf s = Some (B, D) \<Longrightarrow> 0 < B \<Longrightarrow> 0 \<le> i \<Longrightarrow> length rs < fuel \<Longrightarrow>
   srv_batches fuel tweets i rs reqs s \<noteq> OutOfFuel x"
proof (induction fuel arbitrary: i rs reqs s)
  case 0
  then show ?case by simp
next
  case (Suc fuel)
  show ?case
  proof (cases "i < int (length tweets)")
    case False
    then show ?thesis by simp
  next
    case True
    from Suc.prems(1) obtain d where d: "the_deleter s = Some d" "tweetsPerBatch d = B"
      by (auto simp: srv_conf_def)
    let ?batch = "slice tweets i (i + B)"
    let ?s0 = "srv_event (Batch (map tweet_id ?batch)) s"
    obtain i1 reqs1 s1 ro where
      items: "srv_items ?batch i rs reqs ?s0 = ((i1, reqs1, s1), ro)"
      by (metis prod.exhaust)
    show ?thesis
    proof (cases ro)
      case None
      with True items d show ?thesis by (simp add: Let_def)
    next
      case (Some rs')
      from True Suc.prems have "?batch \<noteq> []"
        by (simp add: slice_take_drop)
      moreover from d have "the_deleter ?s0 \<noteq> None" by simp
      note srv_items_replies [OF this items [unfolded Some]]
      ultimately have fuel: "length rs' < fuel" using Suc.prems by (cases ?batch) simp_all
      from srv_items_count [OF items] Suc.prems(1)
      have c1: "srv_conf s1 = Some (B, D)" by simp
      from srv_items_count [OF items] slice_length_pos [OF Suc.prems(3) True Suc.prems(2)]
      have iB: "0 \<le> i1 + B" using Suc.prems(3) by linarith
      from srv_batch_end_Some [OF c1, of tweets i1 reqs1]
      obtain reqs2 s2 where e: "srv_batch_end tweets i1 reqs1 s1 = Some (i1 + B, reqs2, s2)"
        and s2: "srv_conf s2 = Some (B, D)"
        by blast
      from Suc.IH [OF s2 Suc.prems(2) iB fuel, of reqs2] True items Some d e
      show ?thesis by (simp add: Let_def)
    qed
  qed
qed

lemma processDeletion_fuel:
  assumes "the_deleter s = Some d" and "0 < tweetsPerBatch d" and "length rs < fuel"
  shows "processDeletion fuel tweetIds rs reqs write_ok s \<noteq> OutOfFuel s'"
proof -
  from assms(1) have "srv_conf s = Some (tweetsPerBatch d, batchDelayMinutes d)"
    by (simp add: srv_conf_def)
  from srv_batches_fuel [OF this assms(2) _ assms(3)] show ?thesis
    by (auto simp: processDeletion_def Let_def split: run.splits sum.splits)
qed

lemma cli_items_replies:
  "cli_items batch j rs s = (s', Some rs') \<Longrightarrow>
   length rs' \<le> length rs \<and> (j < int (length batch) \<longrightarrow> length rs' < length rs)"
proof (induction batch j rs s rule: cli_items.induct)
  case (1 batch j s)
  then show ?case by (auto split: if_splits)
next
  case (2 batch j r rs s)
  show ?case
  proof (cases "j < int (length batch)")
    case False
    with 2 show ?thesis by auto
  next
    case True
    obtain j1 s1 where a: "cli_attempt (batch ! nat j) j r s = (j1, s1)"
      by (cases "cli_attempt (batch ! nat j) j r s")
    with 2 True have rest: "cli_items batch (j1 + 1) rs s1 = (s', Some rs')" by simp
    from "2.IH" [OF True a [symmetric] rest] True show ?thesis by simp
  qed
qed

lemma cli_batches_fuel:
  "0 < tweetsPerBatch (this s) \<Longrightarrow> 0 \<le> i \<Longrightarrow> length rs < fuel \<Longrightarrow>
   cli_batches fuel tweets i rs s \<noteq> OutOfFuel s'"
proof (induction fuel arbitrary: i rs s)
  case 0
  then show ?case by simp
next
  case (Suc fuel)
  show ?case
  proof (cases "i < int (length tweets)")
    case False
    then show ?thesis by simp
  next
    case True
    let ?B = "tweetsPerBatch (this s)"
    let ?batch = "slice tweets i (i + ?B)"
    let ?s0 = "cli_event (Batch (map tweet_id ?batch)) s"
    obtain s1 ro where items: "cli_items ?batch 0 rs ?s0 = (s1, ro)"
      by (cases "cli_items ?batch 0 rs ?s0")
    show ?thesis
    proof (cases ro)
      case None
      with True items show ?thesis by (simp add: Let_def)
    next
      case (Some rs')
      from True Suc.prems have "?batch \<noteq> []"
        by (simp add: slice_take_drop)
      with cli_items_replies [OF items [unfolded Some]] Suc.prems
      have fuel: "length rs' < fuel" by simp
      from cli_items_frame [OF items] have B1: "tweetsPerBatch (this s1) = ?B"
        by (simp add: cli_frame_def cli_event_def)
      let ?s2 = "if i + ?B < int (length tweets)
                 then cli_event (BatchSleep (batchDelayMinutes (this s1))
                                     (sleep (Some (batchDelayMinutes (this s1))))) s1
                 else s1"
      have B2: "0 < tweetsPerBatch (this ?s2)"
        using B1 Suc.prems(1) by (simp add: cli_event_def)
      from Suc.prems have "0 \<le> i + ?B" by simp
      from Suc.IH [OF B2 this fuel] True items Some B1
      show ?thesis by (simp add: Let_def)
    qed
  qed
qed

section \<open>The percentage of \<open>GET /api/deletion-progress\<close>\<close>

lemma binary64_percent_error:
  assumes "c \<le> t" and "0 < t"
  shows "\<bar>binary64 (binary64 (rat_of_nat c / rat_of_nat t) * 100) - 100 * rat_of_nat c / rat_of_nat t\<bar>
         \<le> 1 / 2 ^ 45"
proof -
  define x where "x = rat_of_nat c / rat_of_nat t"
  define q where "q = binary64 x"
  have x: "0 \<le> x" "x \<le> 1" using assms by (simp_all add: x_def)
  then have "\<bar>x\<bar> < 2 powi 1" by simp
  from binary64_error [OF this] have "\<bar>q - x\<bar> \<le> 2 powi (- 53)" by (simp add: q_def)
  then have qx: "\<bar>q - x\<bar> \<le> 1 / 2 ^ 53" using pow2_neg [of 53] by simp
  with x have "\<bar>q * 100\<bar> < 2 powi 7" by (simp add: abs_if split: if_splits)
  from binary64_error [OF this] have "\<bar>binary64 (q * 100) - q * 100\<bar> \<le> 2 powi (- 47)" by simp
  then have py: "\<bar>binary64 (q * 100) - q * 100\<bar> \<le> 1 / 2 ^ 47" using pow2_neg [of 47] by simp
  have "\<bar>binary64 (q * 100) - 100 * x\<bar> \<le> \<bar>binary64 (q * 100) - q * 100\<bar> + 100 * \<bar>q - x\<bar>"
    by (simp add: abs_if split: if_splits)
  also have "\<dots> \<le> 1 / 2 ^ 47 + 100 * (1 / 2 ^ 53)" using qx py by (intro add_mono mult_left_mono) simp_all
  also have "\<dots> \<le> 1 / 2 ^ 45" by simp
  finally show ?thesis by (simp add: x_def q_def)
qed


lemma floor_near_fraction:
  fixes P :: rat
  assumes M: "0 < M" "M < 2 ^ 33" and close: "\<bar>P - rat_of_nat N / rat_of_nat M\<bar> \<le> 1 / 2 ^ 45"
  shows "(N mod M \<noteq> 0 \<longrightarrow> \<lfloor>P\<rfloor> = int (N div M)) \<and>
         (N mod M = 0 \<longrightarrow> \<lfloor>P\<rfloor> = int (N div M) \<or> \<lfloor>P\<rfloor> = int (N div M) - 1)"
proof -
  define n where "n = N div M"
  define r where "r = N mod M"
  define F where "F = rat_of_nat N / rat_of_nat M"
  have "N = n * M + r" by (simp add: n_def r_def)
  then have "rat_of_nat N = rat_of_nat n * rat_of_nat M + rat_of_nat r"
    by (metis of_nat_add of_nat_mult)
  then have F: "F = rat_of_nat n + rat_of_nat r / rat_of_nat M"
    using M by (simp add: F_def field_simps)
  have "rat_of_nat M \<le> 2 ^ 33"
  proof -
    from M have "M \<le> 2 ^ 33" by simp
    then have "rat_of_nat M \<le> rat_of_nat (2 ^ 33)" by (simp only: of_nat_le_iff)
    then show ?thesis by simp
  qed
  then have inv: "1 / 2 ^ 33 \<le> 1 / rat_of_nat M"
    using M by (simp add: field_simps)
  have small: "(1::rat) / 2 ^ 45 < 1 / 2 ^ 33" by simp
  from close have "P - F \<le> 1 / 2 ^ 45" "- (P - F) \<le> 1 / 2 ^ 45"
    unfolding F_def by (rule abs_le_D1, rule abs_le_D2)
  then have lo: "F - 1 / 2 ^ 45 \<le> P" and hi: "P \<le> F + 1 / 2 ^ 45"
    by linarith+
  show ?thesis
  proof (intro conjI impI)
    assume "N mod M \<noteq> 0"
    then have r1: "1 \<le> r" by (simp add: r_def)
    have "r < M" using M by (simp add: r_def)
    then have "r + 1 \<le> M" by simp
    then have "rat_of_nat (r + 1) \<le> rat_of_nat M" by (simp only: of_nat_le_iff)
    then have "rat_of_nat r / rat_of_nat M \<le> 1 - 1 / rat_of_nat M"
      using M by (simp add: field_simps)
    moreover from r1 have "rat_of_nat 1 \<le> rat_of_nat r" by (simp only: of_nat_le_iff)
    then have "1 / rat_of_nat M \<le> rat_of_nat r / rat_of_nat M"
      using M by (simp add: field_simps)
    ultimately have "rat_of_nat n + 1 / 2 ^ 33 \<le> F" "F \<le> rat_of_nat n + 1 - 1 / 2 ^ 33"
      using F inv by linarith+
    with lo hi small have "rat_of_int (int n) \<le> P" "P < rat_of_int (int n) + 1" by simp_all
    then have "\<lfloor>P\<rfloor> = int n" by (rule floor_unique)
    then show "\<lfloor>P\<rfloor> = int (N div M)" by (simp add: n_def)
  next
    assume "N mod M = 0"
    then have "F = rat_of_nat n" using F by (simp add: r_def)
    with lo hi have b: "rat_of_int (int n) - 1 / 2 ^ 45 \<le> P" "P \<le> rat_of_int (int n) + 1 / 2 ^ 45"
      by simp_all
    show "\<lfloor>P\<rfloor> = int (N div M) \<or> \<lfloor>P\<rfloor> = int (N div M) - 1"
    proof (cases "rat_of_int (int n) \<le> P")
      case True
      moreover from b have "P < rat_of_int (int n) + 1" by simp
      ultimately have "\<lfloor>P\<rfloor> = int n" by (rule floor_unique)
      then show ?thesis by (simp add: n_def)
    next
      case False
      then have "P < rat_of_int (int n - 1) + 1" by simp
      moreover from b have "rat_of_int (int n - 1) \<le> P" by simp
      ultimately have "\<lfloor>P\<rfloor> = int n - 1" by (intro floor_unique)
      then show ?thesis by (simp add: n_def)
    qed
  qed
qed

lemma percent_spec_div:
  "percent_spec st =
     (if 0 < total st
      then int ((200 * (deleted st + failed st) + total st) div (2 * total st)) else 0)"
proof (cases "0 < total st")
  case False
  then show ?thesis by (simp add: percent_spec_def)
next
  case True
  let ?c = "deleted st + failed st"
  have "100 * rat_of_nat ?c / rat_of_nat (total st) + 1 / 2 =
      rat_of_nat (200 * ?c + total st) / rat_of_nat (2 * total st)"
    using True by (simp add: field_simps)
  then have "round (100 * rat_of_nat ?c / rat_of_nat (total st)) =
      \<lfloor>rat_of_nat (200 * ?c + total st) / rat_of_nat (2 * total st)\<rfloor>"
    by (simp only: round_def)
  also have "\<dots> = int ((200 * ?c + total st) div (2 * total st))"
    by (rule floor_divide_of_nat_eq)
  finally show ?thesis using True by (simp add: percent_spec_def)
qed


text \<open>
  C8 as the claim words it fails where the exact percentage lies half-way between two whole
  numbers. With 18 tweets deleted and 5 failed out of 40 it is \<open>57.5\<close>, and
  \<open>round\<close> gives 58. The code divides first: \<open>23 / 40\<close> is the double just below
  \<open>0.575\<close>, the product with 100 is the double just below \<open>57.5\<close>, and
  \<open>Math.round\<close> gives 57.
\<close>

theorem progress_percent_counterexample:
  "progress_percent \<lparr> deleted = 18, failed = 5, total = 40 \<rparr> = 57 \<and>
   percent_spec \<lparr> deleted = 18, failed = 5, total = 40 \<rparr> = 58"
  by code_simp

text \<open>
  C8, amended. For counters with \<open>deleted + failed \<le> total\<close> and a total below
  \<open>2^32\<close> (the length of an array): the percentage reported is \<open>0\<close> when
  \<open>total = 0\<close>; it is \<open>round(100 * (deleted + failed) / total)\<close> when the exact
  percentage does not lie half-way between two whole numbers; and when it does, the
  percentage reported is that value or one less.
\<close>

theorem progress_percent_rounds:
  assumes "total st < 2 ^ 32" and "deleted st + failed st \<le> total st"
  shows "(total st = 0 \<longrightarrow> progress_percent st = 0) \<and>
         (\<not> half_way st \<longrightarrow> progress_percent st = percent_spec st) \<and>
         (half_way st \<longrightarrow>
            progress_percent st = percent_spec st \<or> progress_percent st = percent_spec st - 1)"
proof (cases "0 < total st")
  case False
  then show ?thesis by (simp add: progress_percent_def percent_spec_def half_way_def)
next
  case True
  let ?c = "deleted st + failed st"
  let ?t = "total st"
  let ?p = "binary64 (binary64 (rat_of_nat ?c / rat_of_nat ?t) * 100)"
  have e: "100 * rat_of_nat ?c / rat_of_nat ?t + 1 / 2 =
      rat_of_nat (200 * ?c + ?t) / rat_of_nat (2 * ?t)"
    using True by (simp add: field_simps)
  from binary64_percent_error [OF assms(2) True]
  have "\<bar>(?p + 1 / 2) - (100 * rat_of_nat ?c / rat_of_nat ?t + 1 / 2)\<bar> \<le> 1 / 2 ^ 45"
    by simp
  then have close: "\<bar>(?p + 1 / 2) - rat_of_nat (200 * ?c + ?t) / rat_of_nat (2 * ?t)\<bar> \<le> 1 / 2 ^ 45"
    by (simp only: e)
  have M: "0 < 2 * ?t" "2 * ?t < 2 ^ 33" using True assms(1) by simp_all
  from floor_near_fraction [OF M close] True
  show ?thesis
    by (simp add: progress_percent_def Math_round_def percent_spec_div half_way_def)
qed


theorem progress_percent_rounds_witness:
  "progress_percent \<lparr> deleted = 1, failed = 1, total = 3 \<rparr> = 67 \<and>
   percent_spec \<lparr> deleted = 1, failed = 1, total = 3 \<rparr> = 67 \<and>
   \<not> half_way \<lparr> deleted = 1, failed = 1, total = 3 \<rparr> \<and>
   half_way \<lparr> deleted = 1, failed = 0, total = 8 \<rparr> \<and>
   percent_spec \<lparr> deleted = 1, failed = 0, total = 8 \<rparr> = 13 \<and>
   (progress_percent \<lparr> deleted = 1, failed = 0, total = 8 \<rparr> = 13 \<or>
    progress_percent \<lparr> deleted = 1, failed = 0, total = 8 \<rparr> = 12) \<and>
   progress_percent \<lparr> deleted = 0, failed = 0, total = 0 \<rparr> = 0"
proof -
  have s: "percent_spec \<lparr> deleted = 1, failed = 1, total = 3 \<rparr> = 67"
    "\<not> half_way \<lparr> deleted = 1, failed = 1, total = 3 \<rparr>"
    "half_way \<lparr> deleted = 1, failed = 0, total = 8 \<rparr>"
    "percent_spec \<lparr> deleted = 1, failed = 0, total = 8 \<rparr> = 13"
    by (simp_all add: percent_spec_div half_way_def)
  from progress_percent_rounds [of "\<lparr> deleted = 1, failed = 1, total = 3 \<rparr>"]
    progress_percent_rounds [of "\<lparr> deleted = 1, failed = 0, total = 8 \<rparr>"]
    progress_percent_rounds [of "\<lparr> deleted = 0, failed = 0, total = 0 \<rparr>"] s
  show ?thesis by simp
qed

end
